theory Spec2Isabelle
  imports Main "HOL-Library.AList" "HOL-Library.Multiset"
begin

section \<open>Floating-point values\<close>

text \<open>
  The kernels are templates over a floating-point type \<open>F\<close> (\<open>double\<close> in every caller).
  A value of \<open>F\<close> is modelled by its IEEE class: a NaN, one of the two infinities, or a
  finite value. Finite values are kept on a uniform grid (an integer number of units), with
  \<open>maxfin\<close> the largest finite magnitude: a sum that leaves the finite range becomes an
  infinity, as an overflowing \<open>double\<close> does. Rounding inside the finite range is not
  modelled (the grid is closed under the additions and subtractions below), and the two
  zeros are one value. Comparisons with a NaN are false, as in C++.
\<close>

datatype fl = NaN | NInf | Fin int | PInf

definition maxfin :: int where
  "maxfin = (2 ^ 53 - 1) * 2 ^ 971"

definition norm_fl :: "int \<Rightarrow> fl" where
  "norm_fl n = (if maxfin < n then PInf else if n < - maxfin then NInf else Fin n)"

fun isnan :: "fl \<Rightarrow> bool" where
  "isnan NaN = True"
| "isnan _ = False"

fun isinf :: "fl \<Rightarrow> bool" where
  "isinf PInf = True"
| "isinf NInf = True"
| "isinf _ = False"

text \<open>\<open>a <= b\<close>, \<open>a < b\<close> and \<open>a == b\<close> of C++ on \<open>F\<close>.\<close>

fun fle :: "fl \<Rightarrow> fl \<Rightarrow> bool" where
  "fle NaN _ = False"
| "fle _ NaN = False"
| "fle NInf _ = True"
| "fle _ PInf = True"
| "fle (Fin a) (Fin b) = (a \<le> b)"
| "fle (Fin a) NInf = False"
| "fle PInf _ = False"

fun flt :: "fl \<Rightarrow> fl \<Rightarrow> bool" where
  "flt NaN _ = False"
| "flt _ NaN = False"
| "flt PInf _ = False"
| "flt _ NInf = False"
| "flt (Fin a) (Fin b) = (a < b)"
| "flt NInf _ = True"
| "flt (Fin a) PInf = True"

definition feq :: "fl \<Rightarrow> fl \<Rightarrow> bool" where
  "feq a b = (\<not> isnan a \<and> \<not> isnan b \<and> a = b)"

text \<open>\<open>a + b\<close>, \<open>-a\<close>, \<open>a - b\<close> and \<open>std::abs\<close>.\<close>

fun fadd :: "fl \<Rightarrow> fl \<Rightarrow> fl" where
  "fadd NaN _ = NaN"
| "fadd _ NaN = NaN"
| "fadd PInf NInf = NaN"
| "fadd NInf PInf = NaN"
| "fadd PInf _ = PInf"
| "fadd _ PInf = PInf"
| "fadd NInf _ = NInf"
| "fadd _ NInf = NInf"
| "fadd (Fin a) (Fin b) = norm_fl (a + b)"

fun fneg :: "fl \<Rightarrow> fl" where
  "fneg NaN = NaN"
| "fneg NInf = PInf"
| "fneg PInf = NInf"
| "fneg (Fin a) = Fin (- a)"

definition fsub :: "fl \<Rightarrow> fl \<Rightarrow> fl" where
  "fsub a b = fadd a (fneg b)"

fun fabs :: "fl \<Rightarrow> fl" where
  "fabs NaN = NaN"
| "fabs NInf = PInf"
| "fabs PInf = PInf"
| "fabs (Fin a) = Fin \<bar>a\<bar>"

text \<open>\<open>std::min(a, b)\<close> is \<open>(b < a) ? b : a\<close>.\<close>

definition fmin :: "fl \<Rightarrow> fl \<Rightarrow> fl" where
  "fmin a b = (if flt b a then b else a)"

text \<open>
  Modelled from the spec: the three-argument \<open>min\<close> of \<open>libtempo/utils/utils.hpp\<close>, which
  is not among the sources; the minimum of the three step costs, taken with \<open>std::min\<close>.
\<close>

definition fmin3 :: "fl \<Rightarrow> fl \<Rightarrow> fl \<Rightarrow> fl" where
  "fmin3 a b c = fmin a (fmin b c)"

text \<open>
  \<open>nextafter(x, y)\<close>: a NaN if an argument is one, \<open>x\<close> if they are equal, else the
  neighbour of \<open>x\<close> on the grid in the direction of \<open>y\<close>.
\<close>

fun fsucc :: "fl \<Rightarrow> fl" where
  "fsucc NaN = NaN"
| "fsucc NInf = Fin (- maxfin)"
| "fsucc (Fin a) = norm_fl (a + 1)"
| "fsucc PInf = PInf"

fun fpred :: "fl \<Rightarrow> fl" where
  "fpred NaN = NaN"
| "fpred NInf = NInf"
| "fpred (Fin a) = norm_fl (a - 1)"
| "fpred PInf = Fin maxfin"

definition nextafter :: "fl \<Rightarrow> fl \<Rightarrow> fl" where
  "nextafter x y =
     (if isnan x \<or> isnan y then NaN
      else if x = y then x
      else if flt x y then fsucc x
      else fpred x)"

section \<open>The MSM kernel\<close>

text \<open>
  A cost closure \<open>fun(i, j)\<close> of the concepts \<open>CFun\<close> and \<open>CFunMSM\<close>: the series and the
  cost parameter are captured, the indices are \<open>size_t\<close>.
\<close>

type_synonym cfun = "nat \<Rightarrow> nat \<Rightarrow> fl"

text \<open>
  The tightened bound of \<open>internal::msm\<close> (the \<open>initBlock\<close>). The kernel's callers
  guarantee \<open>nblines \<noteq> 0\<close> and \<open>nbcols \<noteq> 0\<close>, so the two subtractions do not wrap.
\<close>

definition msm_ub :: "nat \<Rightarrow> nat \<Rightarrow> cfun \<Rightarrow> cfun \<Rightarrow> cfun \<Rightarrow> fl \<Rightarrow> fl" where
  "msm_ub nblines nbcols dist_lines dist_cols dist cutoff =
     (if 2 \<le> nbcols then
        let i = nblines - 1;
            j = nbcols - 1;
            la = fmin3 (dist i j) (dist_cols i j) (dist_lines i j)
        in nextafter cutoff (fsub PInf la)
      else cutoff)"


text \<open>
  The first line of the matrix: \<open>for (j = 1; j<nbcols; ++j)\<close>, which leaves the loop at
  the first cell above \<open>ub\<close>. The result is the buffer, \<open>j\<close>, \<open>cost\<close> and \<open>prev_pp\<close>.
\<close>

function first_line ::
  "nat \<Rightarrow> cfun \<Rightarrow> fl \<Rightarrow> nat \<Rightarrow> fl list \<Rightarrow> nat \<Rightarrow> fl \<Rightarrow> nat \<Rightarrow> fl list \<times> nat \<times> fl \<times> nat" where
  "first_line nbcols dist_cols ub c buffer j cost prev_pp =
     (if j < nbcols then
        let cost' = fadd cost (dist_cols 0 j);
            buffer' = buffer[c + j := cost']
        in if fle cost' ub
           then first_line nbcols dist_cols ub c buffer' (j + 1) cost' (j + 1)
           else (buffer', j, cost', prev_pp)
      else (buffer, j, cost, prev_pp))"
  by pat_completeness auto
termination
  by (relation "measure (\<lambda>(nbcols, dist_cols, ub, c, buffer, j, cost, prev_pp). nbcols - j)") auto

text \<open>
  The stages of one line \<open>i\<close> of the main loop. Each takes and returns the variables it
  changes: the buffer, \<open>j\<close>, \<open>cost\<close>, \<open>next_start\<close> and \<open>curr_pp\<close>. \<open>c\<close> and \<open>p\<close> are the
  base indices of the current and the previous row in the buffer.
\<close>

type_synonym vars = "fl list \<times> nat \<times> fl \<times> nat \<times> nat"

text \<open>Stage 0: the first column of the line, \<open>j = next_start\<close>; only the cell above.\<close>

definition stage0 :: "cfun \<Rightarrow> fl \<Rightarrow> nat \<Rightarrow> nat \<Rightarrow> nat \<Rightarrow> fl list \<Rightarrow> nat \<Rightarrow> vars" where
  "stage0 dist_lines ub i c p buffer next_start =
     (let j = next_start;
          cost = fadd (buffer ! (p + j)) (dist_lines i j);
          buffer' = buffer[c + j := cost]
      in if fle cost ub then (buffer', j + 1, cost, next_start, j + 1)
         else (buffer', j + 1, cost, next_start + 1, next_start))"

text \<open>Stage 1: \<open>for (; j==next_start && j<prev_pp; ++j)\<close>, diagonal and above.\<close>

function stage1 ::
  "cfun \<Rightarrow> cfun \<Rightarrow> fl \<Rightarrow> nat \<Rightarrow> nat \<Rightarrow> nat \<Rightarrow> nat \<Rightarrow> fl list \<Rightarrow> nat \<Rightarrow> fl \<Rightarrow> nat \<Rightarrow> nat \<Rightarrow> vars" where
  "stage1 dist_lines dist ub prev_pp i c p buffer j cost next_start curr_pp =
     (if j = next_start \<and> j < prev_pp then
        let cost' = fmin (fadd (buffer ! (p + j - 1)) (dist i j))
                         (fadd (buffer ! (p + j)) (dist_lines i j));
            buffer' = buffer[c + j := cost']
        in if fle cost' ub
           then stage1 dist_lines dist ub prev_pp i c p buffer' (j + 1) cost' next_start (j + 1)
           else stage1 dist_lines dist ub prev_pp i c p buffer' (j + 1) cost' (next_start + 1) curr_pp
      else (buffer, j, cost, next_start, curr_pp))"
  by pat_completeness auto
termination
  by (relation "measure (\<lambda>(dist_lines, dist, ub, prev_pp, i, c, p, buffer, j, r). prev_pp - j)") auto

text \<open>Stage 2: \<open>for (; j<prev_pp; ++j)\<close>, diagonal, left (the running \<open>cost\<close>) and above.\<close>

function stage2 ::
  "cfun \<Rightarrow> cfun \<Rightarrow> cfun \<Rightarrow> fl \<Rightarrow> nat \<Rightarrow> nat \<Rightarrow> nat \<Rightarrow> nat \<Rightarrow> fl list \<Rightarrow> nat \<Rightarrow> fl \<Rightarrow> nat \<Rightarrow> nat \<Rightarrow> vars" where
  "stage2 dist_lines dist_cols dist ub prev_pp i c p buffer j cost next_start curr_pp =
     (if j < prev_pp then
        let cost' = fmin3 (fadd (buffer ! (p + j - 1)) (dist i j))
                          (fadd cost (dist_cols i j))
                          (fadd (buffer ! (p + j)) (dist_lines i j));
            buffer' = buffer[c + j := cost']
        in stage2 dist_lines dist_cols dist ub prev_pp i c p buffer' (j + 1) cost' next_start
             (if fle cost' ub then j + 1 else curr_pp)
      else (buffer, j, cost, next_start, curr_pp))"
  by pat_completeness auto
termination
  by (relation "measure (\<lambda>(dist_lines, dist_cols, dist, ub, prev_pp, i, c, p, buffer, j, r). prev_pp - j)") auto

text \<open>
  Stage 3: at the previous pruning point. \<open>Inl v\<close> is \<open>return v\<close> out of the kernel;
  \<open>Inr\<close> carries the variables on to stage 4.
\<close>

definition stage3 ::
  "nat \<Rightarrow> nat \<Rightarrow> cfun \<Rightarrow> cfun \<Rightarrow> fl \<Rightarrow> fl \<Rightarrow> nat \<Rightarrow> nat \<Rightarrow> nat \<Rightarrow> fl list \<Rightarrow> nat \<Rightarrow> fl \<Rightarrow> nat \<Rightarrow> nat
     \<Rightarrow> (fl \<times> fl list) + vars" where
  "stage3 nblines nbcols dist_cols dist cutoff ub i c p buffer j cost next_start curr_pp =
     (if j < nbcols then
        if j = next_start then
          let cost' = fadd (buffer ! (p + j - 1)) (dist i j);
              buffer' = buffer[c + j := cost']
          in if fle cost' ub then Inr (buffer', j + 1, cost', next_start, j + 1)
             else if i = nblines - 1 \<and> j = nbcols - 1 \<and> fle cost' cutoff then Inl (cost', buffer')
             else Inl (PInf, buffer')
        else
          let cost' = fmin (fadd (buffer ! (p + j - 1)) (dist i j))
                           (fadd cost (dist_cols i j));
              buffer' = buffer[c + j := cost']
          in Inr (buffer', j + 1, cost', next_start, if fle cost' ub then j + 1 else curr_pp)
      else
        if j = next_start then
          if flt cutoff cost then Inl (PInf, buffer)
          else Inr (buffer, j, cost, nbcols - 1, curr_pp)
        else Inr (buffer, j, cost, next_start, curr_pp))"

text \<open>Stage 4: \<open>for (; j==curr_pp && j<nbcols; ++j)\<close>, only the left cell.\<close>

function stage4 ::
  "nat \<Rightarrow> cfun \<Rightarrow> fl \<Rightarrow> nat \<Rightarrow> nat \<Rightarrow> fl list \<Rightarrow> nat \<Rightarrow> fl \<Rightarrow> nat \<Rightarrow> nat \<Rightarrow> vars" where
  "stage4 nbcols dist_cols ub i c buffer j cost next_start curr_pp =
     (if j = curr_pp \<and> j < nbcols then
        let cost' = fadd cost (dist_cols i j);
            buffer' = buffer[c + j := cost']
        in stage4 nbcols dist_cols ub i c buffer' (j + 1) cost' next_start
             (if fle cost' ub then curr_pp + 1 else curr_pp)
      else (buffer, j, cost, next_start, curr_pp))"
  by pat_completeness auto
termination
  by (relation "measure (\<lambda>(nbcols, dist_cols, ub, i, c, buffer, j, r). nbcols - j)") auto

text \<open>
  The main loop \<open>for (; i<nblines; ++i)\<close>. It swaps \<open>c\<close> and \<open>p\<close>, runs the five stages and
  sets \<open>prev_pp = curr_pp\<close>. \<open>Inl\<close> is a \<open>return\<close> from inside the loop; \<open>Inr\<close> gives the
  buffer, \<open>j\<close> and \<open>cost\<close> at the end of the loop.
\<close>

function main_loop ::
  "nat \<Rightarrow> nat \<Rightarrow> cfun \<Rightarrow> cfun \<Rightarrow> cfun \<Rightarrow> fl \<Rightarrow> fl \<Rightarrow> nat \<Rightarrow> nat \<Rightarrow> nat \<Rightarrow> fl list \<Rightarrow> nat \<Rightarrow> fl \<Rightarrow> nat \<Rightarrow> nat
     \<Rightarrow> (fl \<times> fl list) + (fl list \<times> nat \<times> fl)" where
  "main_loop nblines nbcols dist_lines dist_cols dist cutoff ub i c p buffer j cost next_start prev_pp =
     (if i < nblines then
        let c' = p; p' = c in
        (case stage0 dist_lines ub i c' p' buffer next_start of
          (b0, j0, cost0, ns0, pp0) \<Rightarrow>
        (case stage1 dist_lines dist ub prev_pp i c' p' b0 j0 cost0 ns0 pp0 of
          (b1, j1, cost1, ns1, pp1) \<Rightarrow>
        (case stage2 dist_lines dist_cols dist ub prev_pp i c' p' b1 j1 cost1 ns1 pp1 of
          (b2, j2, cost2, ns2, pp2) \<Rightarrow>
        (case stage3 nblines nbcols dist_cols dist cutoff ub i c' p' b2 j2 cost2 ns2 pp2 of
          Inl r \<Rightarrow> Inl r
        | Inr (b3, j3, cost3, ns3, pp3) \<Rightarrow>
        (case stage4 nbcols dist_cols ub i c' b3 j3 cost3 ns3 pp3 of
          (b4, j4, cost4, ns4, pp4) \<Rightarrow>
        main_loop nblines nbcols dist_lines dist_cols dist cutoff ub (i + 1) c' p' b4 j4 cost4 ns4 pp4)))))
      else Inr (buffer, j, cost))"
  by pat_completeness auto
termination
  by (relation "measure (\<lambda>(nblines, nbcols, dist_lines, dist_cols, dist, cutoff, ub, i, r). nblines - i)") auto

text \<open>
  The loops are unfolded one step at a time in the proofs, never by the simplifier.
\<close>

declare first_line.simps [simp del] stage1.simps [simp del] stage2.simps [simp del]
  stage4.simps [simp del] main_loop.simps [simp del]

text \<open>
  \<open>internal::msm\<close>. The buffer is the caller's vector, taken by reference:
  \<open>buffer_v.assign(nbcols*2, 0)\<close> replaces its contents. The result is the returned
  value and the buffer as the kernel leaves it.
\<close>

definition internal_msm ::
  "nat \<Rightarrow> nat \<Rightarrow> cfun \<Rightarrow> cfun \<Rightarrow> cfun \<Rightarrow> fl \<Rightarrow> fl list \<Rightarrow> fl \<times> fl list" where
  "internal_msm nblines nbcols dist_lines dist_cols dist cutoff buffer_v =
     (let ub = msm_ub nblines nbcols dist_lines dist_cols dist cutoff;
          buffer = replicate (nbcols * 2) (Fin 0);
          c = 0;
          p = nbcols;
          cost = dist 0 0;
          buffer = buffer[c + 0 := cost]
      in if fle cost ub then
           (case first_line nbcols dist_cols ub c buffer 1 cost 1 of
             (buffer, j, cost, prev_pp) \<Rightarrow>
           (case main_loop nblines nbcols dist_lines dist_cols dist cutoff ub 1 c p buffer j cost 0 prev_pp of
             Inl r \<Rightarrow> r
           | Inr (buffer, j, cost) \<Rightarrow>
               if j = nbcols \<and> fle cost cutoff then (cost, buffer) else (PInf, buffer)))
         else (PInf, buffer))"

text \<open>
  The upper bound that \<open>msm\<close> computes when the caller gives an infinite one: the cost of
  the diagonal, completed along the last line or the last column.
\<close>

definition diag_ub :: "nat \<Rightarrow> nat \<Rightarrow> cfun \<Rightarrow> cfun \<Rightarrow> cfun \<Rightarrow> fl" where
  "diag_ub nblines nbcols dist_lines dist_cols dist =
     (let m = min nblines nbcols;
          ub = fold (\<lambda>i ub. fadd ub (dist i i)) [0..<m] (Fin 0)
      in if nblines < nbcols then
           fold (\<lambda>j ub. fadd ub (dist_cols (nblines - 1) j)) [nblines..<nbcols] ub
         else if nbcols < nblines then
           fold (\<lambda>i ub. fadd ub (dist_lines i (nbcols - 1))) [nbcols..<nblines] ub
         else ub)"

text \<open>\<open>msm\<close> with a buffer: the length checks, the choice of the cut-off, the kernel.\<close>

definition msm ::
  "nat \<Rightarrow> nat \<Rightarrow> cfun \<Rightarrow> cfun \<Rightarrow> cfun \<Rightarrow> fl \<Rightarrow> fl list \<Rightarrow> fl \<times> fl list" where
  "msm nblines nbcols dist_lines dist_cols dist ub buffer_v =
     (if nblines = 0 \<and> nbcols = 0 then (Fin 0, buffer_v)
      else if (nblines = 0) \<noteq> (nbcols = 0) then (PInf, buffer_v)
      else
        let ub' = (if isinf ub then diag_ub nblines nbcols dist_lines dist_cols dist
                   else if isnan ub then PInf
                   else ub)
        in internal_msm nblines nbcols dist_lines dist_cols dist ub' buffer_v)"

text \<open>The helper without a buffer: \<open>std::vector<F> v;\<close> is empty.\<close>

definition msm_nobuf :: "nat \<Rightarrow> nat \<Rightarrow> cfun \<Rightarrow> cfun \<Rightarrow> cfun \<Rightarrow> fl \<Rightarrow> fl" where
  "msm_nobuf nblines nbcols dist_lines dist_cols dist ub =
     fst (msm nblines nbcols dist_lines dist_cols dist ub [])"

subsection \<open>The univariate costs\<close>

text \<open>
  Modelled from the spec: \<open>ad1\<close> of \<open>libtempo/distance/cost_function.hpp\<close>, which is not
  among the sources: the absolute difference \<open>|A[i] - B[j]|\<close>.
\<close>

definition ad1 :: "fl list \<Rightarrow> fl list \<Rightarrow> cfun" where
  "ad1 lines cols i j = fabs (fsub (lines ! i) (cols ! j))"

definition msm_cost_ad1 :: "fl list \<Rightarrow> nat \<Rightarrow> nat \<Rightarrow> fl list \<Rightarrow> nat \<Rightarrow> fl \<Rightarrow> fl" where
  "msm_cost_ad1 X xnew_i xi_i Y yj_i cost =
     (let xnew = X ! xnew_i;
          xi = X ! xi_i;
          yj = Y ! yj_i
      in if (fle xi xnew \<and> fle xnew yj) \<or> (fle yj xnew \<and> fle xnew xi) then cost
         else fadd cost (fmin (fabs (fsub xnew xi)) (fabs (fsub xnew yj))))"

text \<open>
  The closures index the previous point with \<open>i-1\<close> on \<open>size_t\<close>, which wraps at \<open>i = 0\<close>
  to an index outside every series.
\<close>

definition size_pred :: "nat \<Rightarrow> nat" where
  "size_pred i = (if i = 0 then 2 ^ 64 - 1 else i - 1)"

definition msm_lines_ad1 :: "fl list \<Rightarrow> fl list \<Rightarrow> fl \<Rightarrow> cfun" where
  "msm_lines_ad1 lines cols c i j = msm_cost_ad1 lines i (size_pred i) cols j c"

definition msm_cols_ad1 :: "fl list \<Rightarrow> fl list \<Rightarrow> fl \<Rightarrow> cfun" where
  "msm_cols_ad1 lines cols c i j = msm_cost_ad1 cols j (size_pred j) lines i c"

text \<open>The overload for two univariate vectors with the \<open>ad1\<close> costs.\<close>

definition msm_uni :: "fl list \<Rightarrow> fl list \<Rightarrow> fl \<Rightarrow> fl \<Rightarrow> fl" where
  "msm_uni lines cols c ub =
     msm_nobuf (length lines) (length cols)
       (msm_lines_ad1 lines cols c) (msm_cols_ad1 lines cols c) (ad1 lines cols) ub"


section \<open>The 1-NN splitter of the Proximity Forest\<close>

text \<open>
  What the code can do besides returning: \<open>std::optional::value\<close> on an empty label
  throws, \<open>std::map::at\<close> on a missing key throws, and an index outside a vector, \<open>back\<close>
  of an empty vector or a pick in an empty vector is undefined behaviour.
\<close>

datatype error = BadOptionalAccess | OutOfRange | Undefined

text \<open>A series with its optional label; \<open>'s\<close> is the data of the series.\<close>

record ('l, 's) tseries =
  label :: "'l option"
  tdata :: 's

text \<open>
  The pseudo random number generator of a state: the sequence of its raw outputs and the
  number of outputs drawn so far.
\<close>

record prng =
  raw :: "nat \<Rightarrow> nat"
  pos :: nat

text \<open>
  Modelled from the spec: \<open>utils::pick_one\<close>, which is not among the sources: an element
  of the vector drawn with the generator (the raw output reduced to an index). The vector
  must not be empty.
\<close>

definition pick_one :: "'a list \<Rightarrow> prng \<Rightarrow> error + ('a \<times> prng)" where
  "pick_one v g =
     (if v = [] then Inl Undefined
      else Inr (v ! (raw g (pos g) mod length v), g\<lparr>pos := pos g + 1\<rparr>))"

text \<open>\<open>v[i]\<close> on a vector and \<open>m.at(k)\<close> on a map.\<close>

definition vec_at :: "'a list \<Rightarrow> nat \<Rightarrow> error + 'a" where
  "vec_at v i = (if i < length v then Inr (v ! i) else Inl Undefined)"

definition map_at :: "('k \<rightharpoonup> 'v) \<Rightarrow> 'k \<Rightarrow> error + 'v" where
  "map_at m k = (case m k of None \<Rightarrow> Inl OutOfRange | Some v \<Rightarrow> Inr v)"

definition label_value :: "('l, 's) tseries \<Rightarrow> error + 'l" where
  "label_value t = (case label t of None \<Rightarrow> Inl BadOptionalAccess | Some l \<Rightarrow> Inr l)"

text \<open>
  A distance between a train exemplar and a query with a cut-off, the best so far
  (\<open>distance_t\<close>).
\<close>

type_synonym ('l, 's) distance_t = "('l, 's) tseries \<Rightarrow> ('l, 's) tseries \<Rightarrow> fl \<Rightarrow> fl"

text \<open>
  The 1-NN loop, which \<open>get_branch_index\<close> and \<open>generate\<close> both contain: over the indices
  of the exemplars in order, with the best so far \<open>bsf\<close> and the labels that tie.
\<close>

fun nn1_loop ::
  "('l, 's) distance_t \<Rightarrow> ('l, 's) tseries list \<Rightarrow> ('l, 's) tseries \<Rightarrow> nat list \<Rightarrow>
   fl \<Rightarrow> 'l list \<Rightarrow> error + (fl \<times> 'l list)" where
  "nn1_loop distance train_dataset query [] bsf labels = Inr (bsf, labels)"
| "nn1_loop distance train_dataset query (train_idx # rest) bsf labels =
     (case vec_at train_dataset train_idx of
        Inl e \<Rightarrow> Inl e
      | Inr train_exemplar \<Rightarrow>
          let d = distance train_exemplar query bsf in
          if flt d bsf then
            (case label_value train_exemplar of
               Inl e \<Rightarrow> Inl e
             | Inr l \<Rightarrow> nn1_loop distance train_dataset query rest d [l])
          else if feq bsf d then
            (case label_value train_exemplar of
               Inl e \<Rightarrow> Inl e
             | Inr l \<Rightarrow>
                 nn1_loop distance train_dataset query rest bsf
                   (if l \<in> set labels then labels else labels @ [l]))
          else nn1_loop distance train_dataset query rest bsf labels)"

text \<open>The state at test time and the test-time splitter \<open>TestSplitter_1NN\<close>.\<close>

record ('l, 's) pfstate =
  state_prng :: prng
  dataset_shared_map :: "string \<rightharpoonup> ('l, 's) tseries list"

record ('l, 's) test_splitter =
  sp_train_dataset :: "('l, 's) tseries list"
  sp_train_indexset :: "nat list"
  sp_labels_to_index :: "'l \<rightharpoonup> nat"
  sp_transformation_name :: string
  sp_distance :: "('l, 's) distance_t"


subsection \<open>The splitter generator\<close>

text \<open>
  Modelled from the spec: \<open>ByClassMap\<close> and \<open>IndexSet\<close>, which are not among the sources.
  A by-class map is a mapping from a label to a sequence of row indices, here the list of
  its entries in the order of \<open>classes()\<close>, each label once. \<open>labels_to_index()\<close> numbers
  the classes in that order, \<open>IndexSet(bcm)\<close> is the ordered collection of all the row
  indices, and \<open>pick_one_by_class\<close> keeps one index of each class, drawn with the generator.
\<close>

type_synonym 'l bcm = "('l \<times> nat list) list"

definition classes :: "'l bcm \<Rightarrow> 'l list" where
  "classes bcm = map fst bcm"

definition nb_classes :: "'l bcm \<Rightarrow> nat" where
  "nb_classes bcm = length bcm"

definition bcm_labels_to_index :: "'l bcm \<Rightarrow> ('l \<rightharpoonup> nat)" where
  "bcm_labels_to_index bcm = map_of (zip (classes bcm) [0..<nb_classes bcm])"

definition index_set :: "'l bcm \<Rightarrow> nat list" where
  "index_set bcm = sort (concat (map snd bcm))"

fun pick_one_by_class :: "'l bcm \<Rightarrow> prng \<Rightarrow> error + ('l bcm \<times> prng)" where
  "pick_one_by_class [] g = Inr ([], g)"
| "pick_one_by_class ((l, idxs) # rest) g =
     (case pick_one idxs g of
        Inl e \<Rightarrow> Inl e
      | Inr (i, g') \<Rightarrow>
     (case pick_one_by_class rest g' of
        Inl e \<Rightarrow> Inl e
      | Inr (r, g'') \<Rightarrow> Inr ((l, [i]) # r, g'')))"

text \<open>
  A child under construction is a \<open>std::map<L, std::vector<size_t>>\<close>, here the list of its
  entries. \<open>m[real_label].push_back(query_idx)\<close> creates the entry when the label has none.
\<close>

definition push_back_at :: "('l \<times> nat list) list \<Rightarrow> 'l \<Rightarrow> nat \<Rightarrow> ('l \<times> nat list) list" where
  "push_back_at m l q =
     AList.update l ((case map_of m l of None \<Rightarrow> [] | Some xs \<Rightarrow> xs) @ [q]) m"

text \<open>The loop of \<open>generate\<close> over the rows of the incoming by-class map.\<close>

fun route_loop ::
  "('l, 's) distance_t \<Rightarrow> ('l, 's) tseries list \<Rightarrow> nat list \<Rightarrow> ('l \<rightharpoonup> nat) \<Rightarrow> nat list \<Rightarrow>
   prng \<Rightarrow> ('l \<times> nat list) list list \<Rightarrow> error + (('l \<times> nat list) list list \<times> prng)" where
  "route_loop distance train_dataset train_indexset lti [] g result_bcmvec = Inr (result_bcmvec, g)"
| "route_loop distance train_dataset train_indexset lti (query_idx # rest) g result_bcmvec =
     (case vec_at train_dataset query_idx of
        Inl e \<Rightarrow> Inl e
      | Inr query \<Rightarrow>
     (case nn1_loop distance train_dataset query train_indexset PInf [] of
        Inl e \<Rightarrow> Inl e
      | Inr (bsf, labels) \<Rightarrow>
     (case pick_one labels g of
        Inl e \<Rightarrow> Inl e
      | Inr (predicted_label, g') \<Rightarrow>
     (case map_at lti predicted_label of
        Inl e \<Rightarrow> Inl e
      | Inr predicted_index \<Rightarrow>
     (case label_value query of
        Inl e \<Rightarrow> Inl e
      | Inr real_label \<Rightarrow>
     (case vec_at result_bcmvec predicted_index of
        Inl e \<Rightarrow> Inl e
      | Inr m \<Rightarrow>
          route_loop distance train_dataset train_indexset lti rest g'
            (result_bcmvec[predicted_index := push_back_at m real_label query_idx])))))))"

text \<open>
  The loop over \<open>bcm.classes()\<close> that builds \<open>v_bcm\<close>. \<open>labels_to_index[label]\<close> is the
  subscript of \<open>std::map\<close>, which inserts the index 0 for a label it does not have; the
  map moved into \<open>v_bcm\<close> is left empty in \<open>result_bcmvec\<close>.
\<close>

fun convert_loop ::
  "'l list \<Rightarrow> ('l \<rightharpoonup> nat) \<Rightarrow> ('l \<times> nat list) list list \<Rightarrow> 'l bcm list \<Rightarrow>
   error + ('l bcm list \<times> ('l \<rightharpoonup> nat))" where
  "convert_loop [] lti result_bcmvec v_bcm = Inr (v_bcm, lti)"
| "convert_loop (l # rest) lti result_bcmvec v_bcm =
     (let idx = (case lti l of None \<Rightarrow> 0 | Some i \<Rightarrow> i);
          lti' = (case lti l of None \<Rightarrow> lti(l \<mapsto> 0) | Some i \<Rightarrow> lti)
      in case vec_at result_bcmvec idx of
           Inl e \<Rightarrow> Inl e
         | Inr m \<Rightarrow>
             let m' = (if m = [] then AList.update l [] m else m)
             in convert_loop rest lti' (result_bcmvec[idx := []]) (v_bcm @ [m']))"

text \<open>The generator \<open>TrainSplitter_1NN\<close> and the node that \<open>generate\<close> returns.\<close>

record ('l, 's) train_splitter =
  ts_distance :: "('l, 's) distance_t"
  ts_transformation_name :: string

record ('l, 's) resnode =
  branch_splits :: "'l bcm list"
  splitter :: "('l, 's) test_splitter"

definition generate ::
  "('l, 's) train_splitter \<Rightarrow> ('l, 's) pfstate \<Rightarrow> 'l bcm list \<Rightarrow>
   error + (('l, 's) resnode \<times> ('l, 's) pfstate)" where
  "generate gen state bcmvec =
     (if bcmvec = [] then Inl Undefined
      else
        let bcm = last bcmvec in
        (case pick_one_by_class bcm (state_prng state) of
           Inl e \<Rightarrow> Inl e
         | Inr (train_bcm, g1) \<Rightarrow>
        (let train_indexset = index_set train_bcm in
        (case map_at (dataset_shared_map state) (ts_transformation_name gen) of
           Inl e \<Rightarrow> Inl e
         | Inr train_dataset \<Rightarrow>
        (let lti = bcm_labels_to_index bcm;
             result_bcmvec = replicate (nb_classes bcm) []
         in
        (case route_loop (ts_distance gen) train_dataset train_indexset lti (index_set bcm) g1
                result_bcmvec of
           Inl e \<Rightarrow> Inl e
         | Inr (result_bcmvec', g2) \<Rightarrow>
        (case convert_loop (classes bcm) lti result_bcmvec' [] of
           Inl e \<Rightarrow> Inl e
         | Inr (v_bcm, lti') \<Rightarrow>
             Inr (\<lparr>branch_splits = v_bcm,
                   splitter = \<lparr>sp_train_dataset = train_dataset, sp_train_indexset = train_indexset,
                     sp_labels_to_index = lti', sp_transformation_name = ts_transformation_name gen,
                     sp_distance = ts_distance gen\<rparr>\<rparr>,
                  state\<lparr>state_prng := g2\<rparr>))))))))"

subsection \<open>An example splitter\<close>

text \<open>
  Two train exemplars, of the classes \<open>a\<close> (branch 0) and \<open>b\<close> (branch 1), one test
  exemplar, a distance that is \<open>+\<infinity>\<close> everywhere (as a window that allows no alignment
  gives), and a generator whose outputs are all 0.
\<close>

definition inf_distance :: "(string, fl list) distance_t" where
  "inf_distance train_exemplar test_exemplar bsf = PInf"

definition zero_prng :: prng where
  "zero_prng = \<lparr>raw = (\<lambda>n. 0), pos = 0\<rparr>"

definition ex_train :: "(string, fl list) tseries list" where
  "ex_train = [\<lparr>label = Some ''a'', tdata = [Fin 1, Fin 2]\<rparr>,
               \<lparr>label = Some ''b'', tdata = [Fin 5, Fin 6]\<rparr>]"



text \<open>The rows of a child, and a child with the empty map replaced as \<open>generate\<close> does.\<close>

definition rows_of :: "('l \<times> nat list) list \<Rightarrow> nat list" where
  "rows_of m = concat (map snd m)"

definition fix_empty :: "'l \<Rightarrow> ('l \<times> nat list) list \<Rightarrow> ('l \<times> nat list) list" where
  "fix_empty l m = (if m = [] then [(l, [])] else m)"

text \<open>The generator on the example: the two train rows, one per class.\<close>

definition ex_gen :: "(string, fl list) train_splitter" where
  "ex_gen = \<lparr>ts_distance = inf_distance, ts_transformation_name = ''raw''\<rparr>"

definition ex_train_state :: "(string, fl list) pfstate" where
  "ex_train_state = \<lparr>state_prng = zero_prng, dataset_shared_map = [''raw'' \<mapsto> ex_train]\<rparr>"

definition ex_bcm :: "string bcm" where
  "ex_bcm = [(''a'', [0]), (''b'', [1])]"

section \<open>The LOOCV command line tool\<close>

text \<open>
  \<open>main\<close> of the LOOCV tool. What it calls outside the sources is taken from an
  environment: \<open>tempo::reader::split\<close> at \<open>':'\<close> and \<open>as_double\<close>, \<open>std::stoi\<close> (which throws
  when the text is not a number), the loader of the dataset (an error message or the
  train and test sets, of a type \<open>'d\<close>) and \<open>sanity_check\<close>. The constructors of the two
  distances and \<open>partable\<close> are taken to return.

  The process ends with an exit code, or with an exception that leaves \<open>main\<close>
  (\<open>Uncaught\<close>), or after undefined behaviour (\<open>vdist_ge[0]\<close> of an empty vector). The
  result also records the lines written to \<open>std::cout\<close> and \<open>std::cerr\<close> and the \<open>status\<close>
  of the JSON record written to the output file, if one was written.
\<close>

record 'd cli_env =
  split_colon :: "string \<Rightarrow> string list"
  as_double :: "string \<Rightarrow> fl option"
  stoi_ok :: "string \<Rightarrow> bool"
  load :: "string \<Rightarrow> string \<Rightarrow> string + 'd"
  sanity_check :: "'d \<Rightarrow> string list"

datatype outcome = Exit int | Uncaught | UndefinedBehaviour

record cli_result =
  outcome :: outcome
  cout :: "string list"
  cerr :: "string list"
  json_status :: "string option"

definition do_exit :: "int \<Rightarrow> string option \<Rightarrow> cli_result" where
  "do_exit code msg =
     \<lparr>outcome = Exit code, cout = [],
      cerr = (case msg of None \<Rightarrow> [] | Some m \<Rightarrow> [m]), json_status = None\<rparr>"

definition loocv_main :: "'d cli_env \<Rightarrow> string list \<Rightarrow> cli_result" where
  "loocv_main env argv =
     (let argc = length argv in
      if argc < 7 then
        \<lparr>outcome = Exit 1,
         cout = [''<path to ucr> <dataset name> <transform> <distance:cfe> <nbthreads> <output> required''],
         cerr = [], json_status = None\<rparr>
      else
        let path_ucr = argv ! 1;
            dataset_name = argv ! 2;
            transform = argv ! 3;
            dist_cfe = argv ! 4
        in
        if \<not> stoi_ok env (argv ! 5) then
          \<lparr>outcome = Uncaught, cout = [], cerr = [], json_status = None\<rparr>
        else
          let vdist_ge = split_colon env dist_cfe in
          if vdist_ge = [] then
            \<lparr>outcome = UndefinedBehaviour, cout = [], cerr = [], json_status = None\<rparr>
          else
            let distance_name = vdist_ge ! 0 in
            if 1 < length vdist_ge \<and> as_double env (vdist_ge ! 1) = None then
              \<lparr>outcome = Exit 1, cout = [''<distance:cfe>  <cfe> must be a double''],
               cerr = [], json_status = None\<rparr>
            else
              (case load env path_ucr dataset_name of
                 Inl msg \<Rightarrow> do_exit 1 (Some msg)
               | Inr traintest \<Rightarrow>
                   let errors = sanity_check env traintest in
                   if errors \<noteq> [] then
                     \<lparr>outcome = Exit 0,
                      cout = [''status: error; '' @ concat (map (\<lambda>e. e @ ''; '') errors)], cerr = [],
                      json_status = Some ''error''\<rparr>
                   else if transform \<noteq> ''derivative'' \<and> transform \<noteq> ''raw'' then
                     do_exit 1 (Some ''Wrong transform name'')
                   else if distance_name \<noteq> ''ADTW'' \<and> distance_name \<noteq> ''DTW'' then
                     do_exit 2 (Some (''Unknown distance '' @ distance_name))
                   else
                     \<lparr>outcome = Exit 0, cout = [dataset_name @ '' output to '' @ argv ! 6],
                      cerr = [], json_status = Some ''success''\<rparr>))"

text \<open>
  An environment for the examples: the text is split at its colons, a number is a
  non-empty text of digits, the dataset \<open>Bad\<close> does not pass the sanity check and any
  other name does not load.
\<close>

datatype ex_dataset = Good | Bad

fun split_at :: "char \<Rightarrow> string \<Rightarrow> string list" where
  "split_at c [] = [[]]"
| "split_at c (x # xs) =
     (case split_at c xs of
        [] \<Rightarrow> [[x]]
      | w # ws \<Rightarrow> if x = c then [] # w # ws else (x # w) # ws)"

definition is_digits :: "string \<Rightarrow> bool" where
  "is_digits s = (s \<noteq> [] \<and> list_all (\<lambda>c. c \<in> set ''0123456789'') s)"

definition ex_env :: "ex_dataset cli_env" where
  "ex_env = \<lparr>split_colon = split_at CHR '':'',
     as_double = (\<lambda>s. if is_digits s then Some (Fin 1) else None),
     stoi_ok = is_digits,
     load = (\<lambda>path name. if name = ''Good'' then Inr Good
                          else if name = ''Bad'' then Inr Bad
                          else Inl (''cannot read '' @ name)),
     sanity_check = (\<lambda>d. case d of Good \<Rightarrow> [] | Bad \<Rightarrow> [''empty train set''])\<rparr>"

section \<open>The naive dynamic program\<close>

text \<open>
  The reference that the spec compares the kernel with: the full matrix of the MSM
  recurrence, without pruning. The first cell is the cost of the first two points, the
  first line only takes steps along the columns, the first column only steps along the
  lines, and every other cell is the minimum over the diagonal step, the step from the
  left and the step from above, in the order in which the kernel adds and compares them.
\<close>

fun naive_cell :: "cfun \<Rightarrow> cfun \<Rightarrow> cfun \<Rightarrow> nat \<Rightarrow> nat \<Rightarrow> fl" where
  "naive_cell dist_lines dist_cols dist 0 0 = dist 0 0"
| "naive_cell dist_lines dist_cols dist 0 (Suc j) =
     fadd (naive_cell dist_lines dist_cols dist 0 j) (dist_cols 0 (Suc j))"
| "naive_cell dist_lines dist_cols dist (Suc i) 0 =
     fadd (naive_cell dist_lines dist_cols dist i 0) (dist_lines (Suc i) 0)"
| "naive_cell dist_lines dist_cols dist (Suc i) (Suc j) =
     fmin3 (fadd (naive_cell dist_lines dist_cols dist i j) (dist (Suc i) (Suc j)))
           (fadd (naive_cell dist_lines dist_cols dist (Suc i) j) (dist_cols (Suc i) (Suc j)))
           (fadd (naive_cell dist_lines dist_cols dist i (Suc j)) (dist_lines (Suc i) (Suc j)))"

definition naive_dp :: "nat \<Rightarrow> nat \<Rightarrow> cfun \<Rightarrow> cfun \<Rightarrow> cfun \<Rightarrow> fl" where
  "naive_dp nblines nbcols dist_lines dist_cols dist =
     (if nblines = 0 \<and> nbcols = 0 then Fin 0
      else if nblines = 0 \<or> nbcols = 0 then PInf
      else naive_cell dist_lines dist_cols dist (nblines - 1) (nbcols - 1))"

text \<open>
  A value that is not a NaN and not negative, and cost closures whose values are such on
  the cells of the matrix: the move cost everywhere, the cost of a step along the lines
  from the second line on, the cost of a step along the columns from the second column on.
\<close>

definition nonneg :: "fl \<Rightarrow> bool" where
  "nonneg x = fle (Fin 0) x"

definition costs_ok :: "nat \<Rightarrow> nat \<Rightarrow> cfun \<Rightarrow> cfun \<Rightarrow> cfun \<Rightarrow> bool" where
  "costs_ok nblines nbcols dist_lines dist_cols dist =
     (\<forall>i < nblines. \<forall>j < nbcols.
        nonneg (dist i j) \<and> (0 < i \<longrightarrow> nonneg (dist_lines i j)) \<and> (0 < j \<longrightarrow> nonneg (dist_cols i j)))"

section \<open>The invariants of the kernel\<close>

text \<open>
  A computed cell \<open>x\<close> is good for the cell \<open>m\<close> of the naive matrix when it is that cell,
  or when both are above the bound \<open>ub\<close>: pruning may change a cell only above the bound.
\<close>

definition good :: "fl \<Rightarrow> fl \<Rightarrow> fl \<Rightarrow> bool" where
  "good ub m x = (nonneg x \<and> (x = m \<or> (flt ub x \<and> flt ub m)))"

text \<open>The two rows of the buffer: the bases \<open>c\<close> and \<open>p\<close> are 0 and \<open>nbcols\<close>, in some order.\<close>

definition bases :: "nat \<Rightarrow> nat \<Rightarrow> nat \<Rightarrow> bool" where
  "bases nbc c p = ((c = 0 \<and> p = nbc) \<or> (c = nbc \<and> p = 0))"

text \<open>
  What the kernel knows of a finished line \<open>Mrow\<close> of the naive matrix, stored in \<open>prow\<close>:
  the cells left of \<open>next_start\<close> and from the pruning point on are above the bound, the
  cells in between are good.
\<close>

definition prev_inv :: "fl \<Rightarrow> (nat \<Rightarrow> fl) \<Rightarrow> nat \<Rightarrow> (nat \<Rightarrow> fl) \<Rightarrow> nat \<Rightarrow> nat \<Rightarrow> bool" where
  "prev_inv ub Mrow nbc prow ns0 pp0 =
     (ns0 < pp0 \<and> pp0 \<le> nbc \<and>
      (\<forall>k < ns0. flt ub (Mrow k)) \<and>
      (\<forall>k. ns0 \<le> k \<and> k < pp0 \<longrightarrow> good ub (Mrow k) (prow k)) \<and>
      (\<forall>k. pp0 \<le> k \<and> k < nbc \<longrightarrow> flt ub (Mrow k)))"

text \<open>
  The same for the line under work, up to the column \<open>j\<close>: the variables are those of the
  stages, \<open>ns0\<close> is \<open>next_start\<close> at the start of the line, \<open>cost\<close> is the cell left of \<open>j\<close>.
\<close>

definition cur_inv ::
  "fl \<Rightarrow> (nat \<Rightarrow> fl) \<Rightarrow> nat \<Rightarrow> (nat \<Rightarrow> fl) \<Rightarrow> nat \<Rightarrow> nat \<Rightarrow> nat \<Rightarrow> vars \<Rightarrow> bool" where
  "cur_inv ub Mrow nbc prow c p ns0 v =
     (case v of (buf, j, cost, ns, cpp) \<Rightarrow>
        length buf = 2 * nbc \<and> bases nbc c p \<and> (\<forall>k < nbc. buf ! (p + k) = prow k) \<and>
        ns0 \<le> ns \<and> ns \<le> j \<and> ns0 < j \<and> j \<le> nbc \<and> cpp \<le> j \<and>
        (\<forall>k < ns. flt ub (Mrow k)) \<and>
        (\<forall>k. ns \<le> k \<and> k < j \<longrightarrow> good ub (Mrow k) (buf ! (c + k))) \<and>
        (\<forall>k. cpp \<le> k \<and> k < j \<longrightarrow> flt ub (Mrow k)) \<and>
        (ns < j \<longrightarrow> ns < cpp) \<and>
        (\<forall>k. Suc k = j \<longrightarrow> buf ! (c + k) = cost) \<and> nonneg cost \<and> (ns = j \<longrightarrow> flt ub cost))"

text \<open>
  What holds in every line \<open>i\<close> of the main loop: the costs are not negative, the bound
  and the cut-off are not NaN, and a value not above the cut-off is not above the bound.
\<close>

definition row_ctx :: "nat \<Rightarrow> nat \<Rightarrow> cfun \<Rightarrow> cfun \<Rightarrow> cfun \<Rightarrow> fl \<Rightarrow> fl \<Rightarrow> nat \<Rightarrow> bool" where
  "row_ctx nbl nbc dl dc d cutoff ub i =
     (costs_ok nbl nbc dl dc d \<and> \<not> isnan ub \<and> \<not> isnan cutoff \<and> 0 < i \<and> i < nbl \<and>
      (\<forall>x. nonneg x \<longrightarrow> fle x cutoff \<longrightarrow> fle x ub))"

section \<open>Finite series and the examples of the kernel\<close>

text \<open>\<open>std::isfinite\<close>: the values of a series are finite.\<close>

fun isfinite :: "fl \<Rightarrow> bool" where
  "isfinite (Fin a) = True"
| "isfinite _ = False"



section \<open>The 1-NN scans of the tests\<close>

text \<open>
  The nearest neighbour loops of the distance tests (\<open>SECTION("NN1 DTW")\<close>). A candidate is
  the index \<open>j\<close> of a series with the distance from the query to it, as a function of the
  upper bound. The base loop calls the distance without a bound, which is the bound \<open>+\<infinity>\<close>;
  the EAP loop gives it the best so far.
\<close>

fun nn1_base :: "(nat \<times> (fl \<Rightarrow> fl)) list \<Rightarrow> nat \<Rightarrow> fl \<Rightarrow> nat \<times> fl" where
  "nn1_base [] idx bsf = (idx, bsf)"
| "nn1_base ((j, dist) # rest) idx bsf =
     (let v = dist PInf in
      if flt v bsf then nn1_base rest j v else nn1_base rest idx bsf)"

fun nn1_eap :: "(nat \<times> (fl \<Rightarrow> fl)) list \<Rightarrow> nat \<Rightarrow> fl \<Rightarrow> nat \<times> fl" where
  "nn1_eap [] idx_eap bsf_eap = (idx_eap, bsf_eap)"
| "nn1_eap ((j, dist) # rest) idx_eap bsf_eap =
     (let v_eap = dist bsf_eap in
      if flt v_eap bsf_eap then nn1_eap rest j v_eap else nn1_eap rest idx_eap bsf_eap)"

text \<open>
  Modelled from the spec: the contract of a kernel with early abandoning (the ERP and DTW
  kernels that the tests call are not among the sources), as a function of the upper bound:
  the output is the exact value \<open>r\<close> of the full computation, not a NaN, when the bound is
  infinite or a NaN or not below \<open>r\<close>; under any bound it is \<open>r\<close> or \<open>+\<infinity>\<close>.
\<close>

definition eap_contract :: "(fl \<Rightarrow> fl) \<Rightarrow> fl \<Rightarrow> bool" where
  "eap_contract dist r =
     (\<not> isnan r \<and>
      (\<forall>ub. (isinf ub \<or> isnan ub \<or> fle r ub \<longrightarrow> dist ub = r) \<and> (dist ub = r \<or> dist ub = PInf)))"

text \<open>The candidates of the example: two series at the indices 0 and 5, under MSM with cost 1.\<close>

definition ex_query :: "fl list" where
  "ex_query = [Fin 1, Fin 5]"

definition ex_cands :: "(nat \<times> (fl \<Rightarrow> fl)) list" where
  "ex_cands = [(0, msm_uni ex_query [Fin 4, Fin 9] (Fin 1)), (5, msm_uni ex_query [Fin 2, Fin 3] (Fin 1))]"

section \<open>The other measures\<close>










section \<open>Properties of the MSM kernel\<close>

subsection \<open>The scratch buffer\<close>

lemma internal_msm_buffer: "internal_msm nblines nbcols dist_lines dist_cols dist cutoff v1 =
    internal_msm nblines nbcols dist_lines dist_cols dist cutoff v2"
  by (simp add: internal_msm_def)

text \<open>
  C10: the value that \<open>msm\<close> returns does not depend on what the caller's buffer holds
  on entry: two calls that differ only in the buffer return the same value, which is
  also the value of the helper that takes no buffer.
\<close>

theorem msm_buffer_independent:
  "fst (msm nblines nbcols dist_lines dist_cols dist ub v1) =
     fst (msm nblines nbcols dist_lines dist_cols dist ub v2) \<and>
   fst (msm nblines nbcols dist_lines dist_cols dist ub v1) =
     msm_nobuf nblines nbcols dist_lines dist_cols dist ub"
  using internal_msm_buffer [of nblines nbcols dist_lines dist_cols dist _ v1 v2]
    internal_msm_buffer [of nblines nbcols dist_lines dist_cols dist _ v1 "[]"]
  by (simp add: msm_def msm_nobuf_def Let_def)

subsection \<open>The tightened bound\<close>

text \<open>
  C2: for the series \<open>[1, 5]\<close> and \<open>[2, 3]\<close> with cost \<open>c = 1\<close> the best step into the last
  cell costs 1. With the cut-off 10 the kernel's bound is the value after 10, which is 11:
  the cost of the last step is not subtracted, since it is taken from the second argument
  of \<open>nextafter\<close> (the direction) and not from its result. The value after the cut-off
  minus the last step cost is 10.
\<close>

theorem msm_ub_last_step_not_subtracted:
  "msm_ub 2 2 (msm_lines_ad1 [Fin 1, Fin 5] [Fin 2, Fin 3] (Fin 1))
       (msm_cols_ad1 [Fin 1, Fin 5] [Fin 2, Fin 3] (Fin 1))
       (ad1 [Fin 1, Fin 5] [Fin 2, Fin 3]) (Fin 10) = Fin 11 \<and>
   fmin3 (ad1 [Fin 1, Fin 5] [Fin 2, Fin 3] 1 1)
       (msm_cols_ad1 [Fin 1, Fin 5] [Fin 2, Fin 3] (Fin 1) 1 1)
       (msm_lines_ad1 [Fin 1, Fin 5] [Fin 2, Fin 3] (Fin 1) 1 1) = Fin 1 \<and>
   fsub (nextafter (Fin 10) PInf) (Fin 1) = Fin 10"
  by (simp add: msm_ub_def msm_lines_ad1_def msm_cols_ad1_def ad1_def msm_cost_ad1_def
      size_pred_def fmin3_def fmin_def fsub_def nextafter_def norm_fl_def maxfin_def Let_def)

section \<open>Properties of the 1-NN splitter\<close>

lemma flt_trichotomy: "\<not> isnan a \<Longrightarrow> \<not> isnan b \<Longrightarrow> flt a b \<or> a = b \<or> flt b a"
  by (cases a; cases b) auto

lemma flt_PInf_left [simp]: "\<not> flt PInf d"
  by (cases d) auto

text \<open>
  The invariant of the 1-NN loop: the labels that tie are distinct, the best so far is
  not a NaN, and the list of labels is empty only while the best so far is \<open>+\<infinity>\<close>.
\<close>

lemma nn1_loop_inv:
  assumes "\<forall>idx \<in> set idxs. idx < length ds \<and> label (ds ! idx) \<noteq> None \<and>
             (\<forall>b. \<not> isnan (dist (ds ! idx) q b))"
    and "\<not> isnan bsf" and "distinct labels" and "labels = [] \<longrightarrow> bsf = PInf"
  shows "\<exists>bsf' labels'. nn1_loop dist ds q idxs bsf labels = Inr (bsf', labels') \<and>
           distinct labels' \<and> \<not> isnan bsf' \<and> (labels \<noteq> [] \<or> idxs \<noteq> [] \<longrightarrow> labels' \<noteq> [])"
  using assms
proof (induction idxs arbitrary: bsf labels)
  case Nil
  then show ?case by simp
next
  case (Cons idx rest)
  let ?e = "ds ! idx"
  let ?d = "dist ?e q bsf"
  from Cons.prems(1) obtain l where idx: "idx < length ds" and l: "label ?e = Some l"
    and dn: "\<not> isnan ?d" by auto
  have rest: "\<forall>idx \<in> set rest. idx < length ds \<and> label (ds ! idx) \<noteq> None \<and>
             (\<forall>b. \<not> isnan (dist (ds ! idx) q b))" using Cons.prems(1) by simp
  consider (lt) "flt ?d bsf" | (eq) "\<not> flt ?d bsf" "feq bsf ?d" | (gt) "\<not> flt ?d bsf" "\<not> feq bsf ?d"
    by blast
  then show ?case
  proof cases
    case lt
    have "\<exists>bsf' labels'. nn1_loop dist ds q rest ?d [l] = Inr (bsf', labels') \<and>
           distinct labels' \<and> \<not> isnan bsf' \<and> ([l] \<noteq> [] \<or> rest \<noteq> [] \<longrightarrow> labels' \<noteq> [])"
      by (rule Cons.IH [OF rest dn]) simp_all
    with lt idx l show ?thesis by (simp add: vec_at_def label_value_def)
  next
    case eq
    let ?ls = "if l \<in> set labels then labels else labels @ [l]"
    have "\<exists>bsf' labels'. nn1_loop dist ds q rest bsf ?ls = Inr (bsf', labels') \<and>
           distinct labels' \<and> \<not> isnan bsf' \<and> (?ls \<noteq> [] \<or> rest \<noteq> [] \<longrightarrow> labels' \<noteq> [])"
      by (rule Cons.IH [OF rest Cons.prems(2)]) (use Cons.prems(3) in auto)
    moreover have "?ls \<noteq> []" by auto
    ultimately show ?thesis using eq idx l by (simp add: vec_at_def label_value_def)
  next
    case gt
    from gt dn Cons.prems(2) have "flt bsf ?d"
      using flt_trichotomy [of ?d bsf] by (auto simp: feq_def)
    then have "bsf \<noteq> PInf" by auto
    with Cons.prems(4) have ne: "labels \<noteq> []" by blast
    have "\<exists>bsf' labels'. nn1_loop dist ds q rest bsf labels = Inr (bsf', labels') \<and>
           distinct labels' \<and> \<not> isnan bsf' \<and> (labels \<noteq> [] \<or> rest \<noteq> [] \<longrightarrow> labels' \<noteq> [])"
      by (rule Cons.IH [OF rest Cons.prems(2,3,4)])
    with gt idx l ne show ?thesis by (simp add: vec_at_def label_value_def)
  qed
qed

lemma pick_one_nonempty:
  "labels \<noteq> [] \<Longrightarrow> \<exists>l g'. pick_one labels g = Inr (l, g') \<and> l \<in> set labels"
  by (simp add: pick_one_def)

text \<open>
  C7: for a non-empty set of exemplars that are rows of the train dataset and carry a
  label, and a distance that never is a NaN on them, the 1-NN loop started as the code
  starts it (best so far \<open>+\<infinity>\<close>, no label) ends with a list of tying labels that is not
  empty and has no duplicate, and the pick in that list is defined and gives one of its
  labels. A distance that is \<open>+\<infinity>\<close> everywhere is such a distance.
\<close>

theorem nn1_loop_ties:
  assumes "train_indexset \<noteq> []"
    and "\<forall>idx \<in> set train_indexset. idx < length train_dataset \<and>
           label (train_dataset ! idx) \<noteq> None \<and>
           (\<forall>b. \<not> isnan (dist (train_dataset ! idx) query b))"
  shows "\<exists>bsf labels. nn1_loop dist train_dataset query train_indexset PInf [] = Inr (bsf, labels) \<and>
           labels \<noteq> [] \<and> distinct labels \<and>
           (\<exists>l g'. pick_one labels g = Inr (l, g') \<and> l \<in> set labels)"
proof -
  from nn1_loop_inv [where idxs = train_indexset and ds = train_dataset and dist = dist
      and q = query and bsf = PInf and labels = "[]"] assms
  obtain bsf labels where
    "nn1_loop dist train_dataset query train_indexset PInf [] = Inr (bsf, labels)"
    "distinct labels" "labels \<noteq> []"
    by auto
  then show ?thesis using pick_one_nonempty [of labels g] by blast
qed

theorem nn1_loop_ties_witness:
  "\<exists>bsf labels. nn1_loop inf_distance ex_train \<lparr>label = None, tdata = [Fin 3, Fin 4]\<rparr> [0, 1] PInf []
       = Inr (bsf, labels) \<and>
     labels \<noteq> [] \<and> distinct labels \<and>
     (\<exists>l g'. pick_one labels zero_prng = Inr (l, g') \<and> l \<in> set labels)"
  by (rule nn1_loop_ties) (simp_all add: ex_train_def inf_distance_def)





subsection \<open>The children of the generator\<close>

lemma rows_of_update:
  "mset (rows_of (AList.update l ((case map_of m l of None \<Rightarrow> [] | Some xs \<Rightarrow> xs) @ [q]) m))
     = mset (rows_of m) + {#q#}"
  by (induction m) (auto simp: rows_of_def)

lemma push_back_at_rows: "mset (rows_of (push_back_at m l q)) = mset (rows_of m) + {#q#}"
  unfolding push_back_at_def by (rule rows_of_update)

lemma push_back_at_nonempty: "push_back_at m l q \<noteq> []"
  unfolding push_back_at_def by (cases m) auto

lemma push_back_at_rows_nonempty: "rows_of (push_back_at m l q) \<noteq> []"
  using push_back_at_rows [of m l q] by (metis add_mset_add_single empty_not_add_mset mset.simps(1))

lemma nn1_loop_labels:
  assumes "nn1_loop dist ds q idxs bsf labels = Inr (bsf', labels')"
  shows "set labels' \<subseteq> set labels \<union> {l. \<exists>idx \<in> set idxs. idx < length ds \<and> label (ds ! idx) = Some l}"
  using assms
proof (induction idxs arbitrary: bsf labels)
  case Nil
  then show ?case by simp
next
  case (Cons idx rest)
  show ?case
  proof (cases "idx < length ds")
    case False
    with Cons.prems show ?thesis by (simp add: vec_at_def)
  next
    case True
    show ?thesis
    proof (cases "label (ds ! idx)")
      case None
      with True Cons.prems have "nn1_loop dist ds q rest bsf labels = Inr (bsf', labels')"
        by (simp add: vec_at_def label_value_def Let_def split: if_splits)
      from Cons.IH [OF this] show ?thesis by auto
    next
      case (Some l)
      with True Cons.prems consider
        "nn1_loop dist ds q rest (dist (ds ! idx) q bsf) [l] = Inr (bsf', labels')"
        | "nn1_loop dist ds q rest bsf (if l \<in> set labels then labels else labels @ [l]) = Inr (bsf', labels')"
        | "nn1_loop dist ds q rest bsf labels = Inr (bsf', labels')"
        by (simp add: vec_at_def label_value_def Let_def split: if_splits)
      then show ?thesis
      proof cases
        case 1
        from Cons.IH [OF this] Some True show ?thesis by auto
      next
        case 2
        from Cons.IH [OF this] Some True show ?thesis by (auto split: if_splits)
      next
        case 3
        from Cons.IH [OF this] show ?thesis by auto
      qed
    qed
  qed
qed


lemma rows_update:
  "k < length vec \<Longrightarrow> mset (rows_of m') = mset (rows_of (vec ! k)) + {#q#} \<Longrightarrow>
   mset (concat (map rows_of (vec[k := m']))) = mset (concat (map rows_of vec)) + {#q#}"
proof (induction vec arbitrary: k)
  case Nil
  then show ?case by simp
next
  case (Cons m vec)
  then show ?case by (cases k) auto
qed

lemma route_loop_ok:
  assumes "\<forall>q \<in> set queries. q < length ds \<and> label (ds ! q) \<noteq> None"
    and "queries \<noteq> [] \<longrightarrow> tis \<noteq> []"
    and "\<forall>i \<in> set tis. i < length ds \<and> (\<exists>l k. label (ds ! i) = Some l \<and> lti l = Some k \<and> k < n)"
    and "\<forall>i \<in> set tis. \<forall>q \<in> set queries. \<forall>b. \<not> isnan (dist (ds ! i) (ds ! q) b)"
    and "length vec = n"
    and "\<forall>m \<in> set vec. m \<noteq> [] \<longrightarrow> rows_of m \<noteq> []"
  shows "\<exists>vec' g'. route_loop dist ds tis lti queries g vec = Inr (vec', g') \<and> length vec' = n \<and>
           mset (concat (map rows_of vec')) = mset (concat (map rows_of vec)) + mset queries \<and>
           (\<forall>m \<in> set vec'. m \<noteq> [] \<longrightarrow> rows_of m \<noteq> [])"
  using assms
proof (induction queries arbitrary: g vec)
  case Nil
  then show ?case by simp
next
  case (Cons q rest)
  from Cons.prems(1) obtain rl where q: "q < length ds" and rl: "label (ds ! q) = Some rl" by auto
  from Cons.prems(2) have tis: "tis \<noteq> []" by simp
  have ex: "\<forall>idx \<in> set tis. idx < length ds \<and> label (ds ! idx) \<noteq> None \<and>
             (\<forall>b. \<not> isnan (dist (ds ! idx) (ds ! q) b))"
    using Cons.prems(3,4) by auto
  from nn1_loop_inv [where idxs = tis and ds = ds and dist = dist and q = "ds ! q"
      and bsf = PInf and labels = "[]"] ex tis
  obtain bsf labels where
    scan: "nn1_loop dist ds (ds ! q) tis PInf [] = Inr (bsf, labels)" and lne: "labels \<noteq> []"
    by auto
  from pick_one_nonempty [OF lne, of g] obtain l g' where
    pick: "pick_one labels g = Inr (l, g')" and lin: "l \<in> set labels"
    by blast
  from nn1_loop_labels [OF scan] lin obtain idx where "idx \<in> set tis" "label (ds ! idx) = Some l"
    by auto
  with Cons.prems(3) obtain k where k: "lti l = Some k" "k < n" by fastforce
  let ?vec = "vec[k := push_back_at (vec ! k) rl q]"
  have len: "length ?vec = n" using Cons.prems(5) by simp
  have ne: "\<forall>m \<in> set ?vec. m \<noteq> [] \<longrightarrow> rows_of m \<noteq> []"
  proof
    fix m assume "m \<in> set ?vec"
    then have "m \<in> set vec \<or> m = push_back_at (vec ! k) rl q"
      using set_update_subset_insert [of vec k] by auto
    then show "m \<noteq> [] \<longrightarrow> rows_of m \<noteq> []"
      using Cons.prems(6) push_back_at_rows_nonempty [of "vec ! k" rl q] by auto
  qed
  have rest1: "\<forall>q \<in> set rest. q < length ds \<and> label (ds ! q) \<noteq> None" using Cons.prems(1) by simp
  have rest2: "rest \<noteq> [] \<longrightarrow> tis \<noteq> []" using tis by simp
  have rest4: "\<forall>i \<in> set tis. \<forall>q \<in> set rest. \<forall>b. \<not> isnan (dist (ds ! i) (ds ! q) b)"
    using Cons.prems(4) by simp
  from Cons.IH [OF rest1 rest2 Cons.prems(3) rest4 len ne, of g']
  obtain vec' g'' where r: "route_loop dist ds tis lti rest g' ?vec = Inr (vec', g'')"
    "length vec' = n"
    "mset (concat (map rows_of vec')) = mset (concat (map rows_of ?vec)) + mset rest"
    "\<forall>m \<in> set vec'. m \<noteq> [] \<longrightarrow> rows_of m \<noteq> []"
    by blast
  have kl: "k < length vec" using k(2) Cons.prems(5) by simp
  have "route_loop dist ds tis lti (q # rest) g vec = Inr (vec', g'')"
    using q rl scan pick k kl r(1) by (simp add: vec_at_def map_at_def label_value_def)
  moreover have "mset (concat (map rows_of vec')) = mset (concat (map rows_of vec)) + mset (q # rest)"
    using r(3) rows_update [OF kl push_back_at_rows [of "vec ! k" rl q]] by simp
  ultimately show ?case using r(2,4) by blast
qed

lemma convert_loop_ok:
  assumes "length vec = k + length ls" and "\<forall>j < length ls. lti (ls ! j) = Some (k + j)"
  shows "convert_loop ls lti vec acc =
           Inr (acc @ map (\<lambda>j. fix_empty (ls ! j) (vec ! (k + j))) [0..<length ls], lti)"
  using assms
proof (induction ls arbitrary: k vec acc)
  case Nil
  then show ?case by simp
next
  case (Cons l rest)
  from Cons.prems(2) have l: "lti l = Some k" by fastforce
  have len: "length (vec[k := []]) = Suc k + length rest" using Cons.prems(1) by simp
  have lt: "\<forall>j < length rest. lti (rest ! j) = Some (Suc k + j)"
    using Cons.prems(2) by fastforce
  have "convert_loop (l # rest) lti vec acc =
          convert_loop rest lti (vec[k := []]) (acc @ [fix_empty l (vec ! k)])"
    using l Cons.prems(1) by (simp add: vec_at_def fix_empty_def Let_def)
  also have "\<dots> = Inr ((acc @ [fix_empty l (vec ! k)]) @
      map (\<lambda>j. fix_empty (rest ! j) (vec[k := []] ! (Suc k + j))) [0..<length rest], lti)"
    by (rule Cons.IH [OF len lt])
  also have "map (\<lambda>j. fix_empty (rest ! j) (vec[k := []] ! (Suc k + j))) [0..<length rest]
      = map (\<lambda>j. fix_empty ((l # rest) ! j) (vec ! (k + j))) (map Suc [0..<length rest])"
    by simp
  also have "(acc @ [fix_empty l (vec ! k)]) @ \<dots>
      = acc @ map (\<lambda>j. fix_empty ((l # rest) ! j) (vec ! (k + j))) (0 # map Suc [0..<length rest])"
    by simp
  also have "0 # map Suc [0..<length rest] = [0..<length (l # rest)]"
    by (simp add: upt_conv_Cons map_Suc_upt del: upt_Suc)
  finally show ?case .
qed


lemma pick_one_by_class_ok:
  assumes "\<forall>(l, idxs) \<in> set bcm. idxs \<noteq> []"
  shows "\<exists>tb g'. pick_one_by_class bcm g = Inr (tb, g') \<and>
           set (concat (map snd tb)) \<subseteq> set (concat (map snd bcm)) \<and>
           (bcm \<noteq> [] \<longrightarrow> concat (map snd tb) \<noteq> [])"
  using assms
proof (induction bcm arbitrary: g)
  case Nil
  then show ?case by simp
next
  case (Cons e rest)
  obtain l idxs where e: "e = (l, idxs)" by (cases e)
  with Cons.prems have ne: "idxs \<noteq> []" and r: "\<forall>(l, idxs) \<in> set rest. idxs \<noteq> []" by auto
  from pick_one_nonempty [OF ne, of g] obtain i g' where
    p: "pick_one idxs g = Inr (i, g')" "i \<in> set idxs" by blast
  from Cons.IH [OF r, of g'] obtain tb g'' where
    t: "pick_one_by_class rest g' = Inr (tb, g'')"
       "set (concat (map snd tb)) \<subseteq> set (concat (map snd rest))" by blast
  have "pick_one_by_class (e # rest) g = Inr ((l, [i]) # tb, g'')"
    using e p(1) t(1) by simp
  moreover have "set (concat (map snd ((l, [i]) # tb))) \<subseteq> set (concat (map snd (e # rest)))"
    using e p(2) t(2) by auto
  ultimately show ?case by fastforce
qed

lemma rows_of_fix_empty [simp]: "rows_of (fix_empty l m) = rows_of m"
  by (simp add: fix_empty_def rows_of_def)

lemma fix_empty_nonempty [simp]: "fix_empty l m \<noteq> []"
  by (simp add: fix_empty_def)

lemma labels_to_index_nth:
  "distinct (classes bcm) \<Longrightarrow> j < nb_classes bcm \<Longrightarrow>
   bcm_labels_to_index bcm (classes bcm ! j) = Some j"
  unfolding bcm_labels_to_index_def
  using map_of_zip_nth [of "classes bcm" "[0..<nb_classes bcm]" j]
  by (simp add: classes_def nb_classes_def)

lemma labels_to_index_class:
  "distinct (classes bcm) \<Longrightarrow> l \<in> set (classes bcm) \<Longrightarrow>
   \<exists>k. bcm_labels_to_index bcm l = Some k \<and> k < nb_classes bcm"
  using labels_to_index_nth [of bcm] by (metis in_set_conv_nth classes_def nb_classes_def length_map)

text \<open>
  C8: let the incoming by-class map (the last of \<open>bcmvec\<close>) list each class once, each
  class with at least one row, the rows being rows of the dataset of the generator's
  transformation that carry the label of their class; let the distance never be a NaN
  between two of these rows. Then \<open>generate\<close> returns a node with one child per class of
  the incoming map; no child is the empty map; a child that received no row is the single
  entry from the class of its branch to the empty list of rows; and the rows of all the
  children together are the rows of the incoming map, each as often as there (so with
  distinct rows, each is in exactly one child).
\<close>

theorem generate_children:
  fixes bcmvec :: "'l bcm list" and gen :: "('l, 's) train_splitter"
  assumes "bcmvec \<noteq> []"
    and "distinct (classes (last bcmvec))"
    and "\<forall>(l, idxs) \<in> set (last bcmvec). idxs \<noteq> [] \<and>
           (\<forall>i \<in> set idxs. i < length ds \<and> label (ds ! i) = Some l)"
    and "dataset_shared_map state (ts_transformation_name gen) = Some ds"
    and "\<forall>i \<in> set (index_set (last bcmvec)). \<forall>q \<in> set (index_set (last bcmvec)).
           \<forall>b. \<not> isnan (ts_distance gen (ds ! i) (ds ! q) b)"
  shows "\<exists>node state'. generate gen state bcmvec = Inr (node, state') \<and>
     length (branch_splits node) = nb_classes (last bcmvec) \<and>
     (\<forall>child \<in> set (branch_splits node). child \<noteq> []) \<and>
     (\<forall>k < nb_classes (last bcmvec). rows_of (branch_splits node ! k) = [] \<longrightarrow>
          branch_splits node ! k = [(classes (last bcmvec) ! k, [])]) \<and>
     mset (concat (map rows_of (branch_splits node))) = mset (index_set (last bcmvec))"
proof -
  let ?bcm = "last bcmvec"
  let ?n = "nb_classes ?bcm"
  let ?lti = "bcm_labels_to_index ?bcm"
  let ?vec0 = "replicate ?n ([] :: ('l \<times> nat list) list)"
  have rows: "\<forall>i \<in> set (index_set ?bcm). i < length ds \<and>
      (\<exists>l. label (ds ! i) = Some l \<and> l \<in> set (classes ?bcm))"
  proof
    fix i assume "i \<in> set (index_set ?bcm)"
    then have "i \<in> set (concat (map snd ?bcm))" by (simp add: index_set_def)
    then obtain l idxs where e: "(l, idxs) \<in> set ?bcm" "i \<in> set idxs" by auto
    with assms(3) have "i < length ds" "label (ds ! i) = Some l" by auto
    moreover from e(1) have "l \<in> set (classes ?bcm)" by (force simp: classes_def)
    ultimately show "i < length ds \<and> (\<exists>l. label (ds ! i) = Some l \<and> l \<in> set (classes ?bcm))"
      by blast
  qed
  from assms(3) have "\<forall>(l, idxs) \<in> set ?bcm. idxs \<noteq> []" by auto
  from pick_one_by_class_ok [OF this, of "state_prng state"] obtain tb g1 where
    tb: "pick_one_by_class ?bcm (state_prng state) = Inr (tb, g1)"
      "set (concat (map snd tb)) \<subseteq> set (concat (map snd ?bcm))"
      "?bcm \<noteq> [] \<longrightarrow> concat (map snd tb) \<noteq> []"
    by blast
  let ?tis = "index_set tb"
  have tis_sub: "set ?tis \<subseteq> set (index_set ?bcm)" using tb(2) by (simp add: index_set_def)
  have h1: "\<forall>q \<in> set (index_set ?bcm). q < length ds \<and> label (ds ! q) \<noteq> None"
    using rows by auto
  have h2: "index_set ?bcm \<noteq> [] \<longrightarrow> ?tis \<noteq> []"
  proof
    assume "index_set ?bcm \<noteq> []"
    then have "?bcm \<noteq> []" by (auto simp: index_set_def)
    with tb(3) have "concat (map snd tb) \<noteq> []" by simp
    then have "set (sort (concat (map snd tb))) \<noteq> {}" by simp
    then show "?tis \<noteq> []" unfolding index_set_def by (metis list.set(1))
  qed
  have h3: "\<forall>i \<in> set ?tis. i < length ds \<and>
      (\<exists>l k. label (ds ! i) = Some l \<and> ?lti l = Some k \<and> k < ?n)"
  proof
    fix i assume "i \<in> set ?tis"
    with tis_sub have "i \<in> set (index_set ?bcm)" by blast
    with rows obtain l where l: "i < length ds" "label (ds ! i) = Some l"
      "l \<in> set (classes ?bcm)" by blast
    from labels_to_index_class [OF assms(2) l(3)] obtain k where "?lti l = Some k" "k < ?n"
      by blast
    with l(1,2) show "i < length ds \<and>
      (\<exists>l k. label (ds ! i) = Some l \<and> ?lti l = Some k \<and> k < ?n)" by blast
  qed
  have h4: "\<forall>i \<in> set ?tis. \<forall>q \<in> set (index_set ?bcm).
      \<forall>b. \<not> isnan (ts_distance gen (ds ! i) (ds ! q) b)"
    using assms(5) tis_sub by blast
  have h5: "length (?vec0) = ?n" by simp
  have h6: "\<forall>m \<in> set (?vec0). m \<noteq> [] \<longrightarrow> rows_of m \<noteq> []"
    by simp
  have "\<exists>vec' g'. route_loop (ts_distance gen) ds ?tis ?lti (index_set ?bcm) g1 ?vec0 = Inr (vec', g') \<and>
      length vec' = ?n \<and>
      mset (concat (map rows_of vec')) = mset (concat (map rows_of ?vec0)) + mset (index_set ?bcm) \<and>
      (\<forall>m \<in> set vec'. m \<noteq> [] \<longrightarrow> rows_of m \<noteq> [])"
    by (rule route_loop_ok [where n = ?n, OF h1 h2 h3 h4 h5 h6])
  then obtain vec g2 where
    rl: "route_loop (ts_distance gen) ds ?tis ?lti (index_set ?bcm) g1 ?vec0 = Inr (vec, g2)"
      "length vec = ?n"
      "mset (concat (map rows_of vec)) = mset (concat (map rows_of ?vec0)) + mset (index_set ?bcm)"
      "\<forall>m \<in> set vec. m \<noteq> [] \<longrightarrow> rows_of m \<noteq> []"
    by (elim exE conjE) (rule that)
  let ?v = "map (\<lambda>j. fix_empty (classes ?bcm ! j) (vec ! j)) [0..<?n]"
  have ncl: "length (classes ?bcm) = ?n" by (simp add: classes_def nb_classes_def)
  have cl: "convert_loop (classes ?bcm) ?lti vec [] = Inr (?v, ?lti)"
  proof -
    have lt: "\<forall>j < length (classes ?bcm). ?lti (classes ?bcm ! j) = Some (0 + j)"
      using labels_to_index_nth [OF assms(2)] ncl by simp
    have len: "length vec = 0 + length (classes ?bcm)" using rl(2) ncl by simp
    from convert_loop_ok [OF len lt, of "[]"] show ?thesis by (simp add: ncl)
  qed
  let ?node = "\<lparr>branch_splits = ?v,
      splitter = \<lparr>sp_train_dataset = ds, sp_train_indexset = ?tis,
        sp_labels_to_index = ?lti, sp_transformation_name = ts_transformation_name gen,
        sp_distance = ts_distance gen\<rparr>\<rparr>"
  have gen: "generate gen state bcmvec = Inr (?node, state\<lparr>state_prng := g2\<rparr>)"
    using assms(1,4) tb(1) rl(1) cl by (simp add: generate_def map_at_def Let_def)
  have c1: "length ?v = ?n" by simp
  have c2: "\<forall>child \<in> set ?v. child \<noteq> []" by auto
  have c3: "\<forall>k < ?n. rows_of (?v ! k) = [] \<longrightarrow> ?v ! k = [(classes ?bcm ! k, [])]"
  proof (intro allI impI)
    fix k assume k: "k < ?n" and e: "rows_of (?v ! k) = []"
    then have "rows_of (vec ! k) = []" by simp
    moreover have "vec ! k \<in> set vec" using k rl(2) by simp
    ultimately have "vec ! k = []" using rl(4) by blast
    then show "?v ! k = [(classes ?bcm ! k, [])]" using k by (simp add: fix_empty_def)
  qed
  have "map rows_of ?v = map rows_of (map (\<lambda>j. vec ! j) [0..<length vec])"
    using rl(2) by simp
  then have "map rows_of ?v = map rows_of vec" by (simp only: map_nth)
  then have c4: "mset (concat (map rows_of ?v)) = mset (index_set ?bcm)"
    using rl(3) by (simp add: rows_of_def)
  show ?thesis using gen c1 c2 c3 c4
    by (intro exI [of _ ?node] exI [of _ "state\<lparr>state_prng := g2\<rparr>"]) simp
qed


theorem generate_children_witness:
  "\<exists>node state'. generate ex_gen ex_train_state [ex_bcm] = Inr (node, state') \<and>
     length (branch_splits node) = nb_classes (last [ex_bcm]) \<and>
     (\<forall>child \<in> set (branch_splits node). child \<noteq> []) \<and>
     (\<forall>k < nb_classes (last [ex_bcm]). rows_of (branch_splits node ! k) = [] \<longrightarrow>
          branch_splits node ! k = [(classes (last [ex_bcm]) ! k, [])]) \<and>
     mset (concat (map rows_of (branch_splits node))) = mset (index_set (last [ex_bcm]))"
  by (rule generate_children [where ds = ex_train])
    (simp_all add: ex_gen_def ex_train_state_def ex_bcm_def ex_train_def inf_distance_def
      classes_def index_set_def)

section \<open>Properties of the LOOCV command line tool\<close>




text \<open>An unknown distance name ends the tool with exit code 2.\<close>

lemma loocv_unknown_distance_exits_2:
  "loocv_main ex_env [''loocv'', ''ucr'', ''Good'', ''raw'', ''MSM:1'', ''4'', ''out.json''] =
     \<lparr>outcome = Exit 2, cout = [], cerr = [''Unknown distance MSM''], json_status = None\<rparr>"
  by (simp add: loocv_main_def do_exit_def ex_env_def is_digits_def)

subsection \<open>The kernel computes the naive dynamic program\<close>

lemma nonneg_cases: "nonneg x \<longleftrightarrow> x = PInf \<or> (\<exists>a. x = Fin a \<and> 0 \<le> a)"
  by (cases x) (auto simp: nonneg_def)

lemma nonneg_not_nan: "nonneg x \<Longrightarrow> \<not> isnan x"
  by (auto simp: nonneg_cases)

lemma maxfin_pos: "0 < maxfin"
  by (simp add: maxfin_def)

lemma nonneg_fadd: "nonneg a \<Longrightarrow> nonneg b \<Longrightarrow> nonneg (fadd a b)"
  using maxfin_pos by (cases a; cases b) (auto simp: nonneg_def norm_fl_def)

lemma fle_fadd: "nonneg a \<Longrightarrow> nonneg b \<Longrightarrow> fle a (fadd a b)"
  using maxfin_pos by (cases a; cases b) (auto simp: nonneg_def norm_fl_def)

lemma fle_refl: "\<not> isnan a \<Longrightarrow> fle a a"
  by (cases a) auto

lemma fle_trans: "fle a b \<Longrightarrow> fle b c \<Longrightarrow> fle a c"
  by (cases a; cases b; cases c) auto

lemma flt_fle_trans: "flt a b \<Longrightarrow> fle b c \<Longrightarrow> flt a c"
  by (cases a; cases b; cases c) auto

lemma not_fle_iff: "\<not> isnan a \<Longrightarrow> \<not> isnan b \<Longrightarrow> \<not> fle a b \<longleftrightarrow> flt b a"
  by (cases a; cases b) auto

lemma flt_not_fle: "flt b a \<Longrightarrow> \<not> fle a b"
  by (cases a; cases b) auto

lemma fmin_cases: "fmin a b = a \<or> fmin a b = b"
  by (simp add: fmin_def)

lemma nonneg_fmin: "nonneg a \<Longrightarrow> nonneg b \<Longrightarrow> nonneg (fmin a b)"
  by (simp add: fmin_def)

lemma flt_fmin: "\<not> isnan a \<Longrightarrow> \<not> isnan b \<Longrightarrow> flt u (fmin a b) \<longleftrightarrow> flt u a \<and> flt u b"
  by (cases a; cases b; cases u) (auto simp: fmin_def)

lemma fmin_absorb_hi: "flt u b \<Longrightarrow> \<not> flt u a \<Longrightarrow> \<not> isnan a \<Longrightarrow> fmin a b = a"
  by (cases a; cases b; cases u) (auto simp: fmin_def)

lemma fmin_absorb_hi2: "flt u a \<Longrightarrow> \<not> flt u b \<Longrightarrow> \<not> isnan b \<Longrightarrow> fmin a b = b"
  by (cases a; cases b; cases u) (auto simp: fmin_def)

lemma fadd_mono_hi: "flt u a \<Longrightarrow> nonneg a \<Longrightarrow> nonneg b \<Longrightarrow> flt u (fadd a b)"
  using flt_fle_trans fle_fadd by blast


lemma fle_NaN_right [simp]: "\<not> fle x NaN"
  by (cases x) auto

lemma fle_nan: "isnan u \<Longrightarrow> \<not> fle x u"
  by (cases u) auto

lemma good_PInf: "flt ub m \<Longrightarrow> good ub m PInf"
  by (cases ub; cases m) (auto simp: good_def nonneg_def)

lemma good_exact: "nonneg m \<Longrightarrow> good ub m m"
  by (simp add: good_def)

lemma good_fadd: "good ub m x \<Longrightarrow> nonneg m \<Longrightarrow> nonneg c \<Longrightarrow> good ub (fadd m c) (fadd x c)"
  unfolding good_def using nonneg_fadd fadd_mono_hi by blast

lemma hi_fadd: "flt ub m \<Longrightarrow> nonneg m \<Longrightarrow> nonneg c \<Longrightarrow> good ub (fadd m c) PInf"
  using good_PInf fadd_mono_hi by blast

lemma good_fmin:
  assumes "good ub P p" "good ub Q q" "nonneg P" "nonneg Q"
  shows "good ub (fmin P Q) (fmin p q)"
proof -
  have np: "\<not> isnan p" "\<not> isnan q" "\<not> isnan P" "\<not> isnan Q"
    using assms nonneg_not_nan by (auto simp: good_def)
  have nn: "nonneg (fmin p q)" using assms nonneg_fmin by (auto simp: good_def)
  consider (ee) "p = P" "q = Q" | (eh) "p = P" "flt ub q" "flt ub Q"
    | (he) "flt ub p" "flt ub P" "q = Q" | (hh) "flt ub p" "flt ub P" "flt ub q" "flt ub Q"
    using assms by (auto simp: good_def)
  then show ?thesis
  proof cases
    case ee
    then show ?thesis using nn by (simp add: good_def)
  next
    case eh
    show ?thesis
    proof (cases "flt ub P")
      case True
      then have "flt ub (fmin p q)" "flt ub (fmin P Q)"
        using eh np by (simp_all add: flt_fmin)
      then show ?thesis using nn by (simp add: good_def)
    next
      case False
      then have "fmin P Q = P" "fmin p q = P"
        using eh np fmin_absorb_hi by auto
      then show ?thesis using nn by (simp add: good_def)
    qed
  next
    case he
    show ?thesis
    proof (cases "flt ub Q")
      case True
      then have "flt ub (fmin p q)" "flt ub (fmin P Q)"
        using he np by (simp_all add: flt_fmin)
      then show ?thesis using nn by (simp add: good_def)
    next
      case False
      then have "fmin P Q = Q" "fmin p q = Q"
        using he np fmin_absorb_hi2 by auto
      then show ?thesis using nn by (simp add: good_def)
    qed
  next
    case hh
    then have "flt ub (fmin p q)" "flt ub (fmin P Q)"
      using np by (simp_all add: flt_fmin)
    then show ?thesis using nn by (simp add: good_def)
  qed
qed

lemma good_fmin3:
  assumes "good ub P p" "good ub Q q" "good ub R r" "nonneg P" "nonneg Q" "nonneg R"
  shows "good ub (fmin3 P Q R) (fmin3 p q r)"
  unfolding fmin3_def using assms good_fmin nonneg_fmin by simp

lemma fmin_PInf_right: "\<not> isnan p \<Longrightarrow> fmin p PInf = p"
  by (cases p) (auto simp: fmin_def)

lemma fmin_PInf_left: "\<not> isnan p \<Longrightarrow> fmin PInf p = p"
  by (cases p) (auto simp: fmin_def)

lemma M_rec0: "0 < i \<Longrightarrow> naive_cell dl dc d i 0 = fadd (naive_cell dl dc d (i - 1) 0) (dl i 0)"
  by (cases i) simp_all

lemma M_rec: "0 < i \<Longrightarrow> 0 < j \<Longrightarrow> naive_cell dl dc d i j =
    fmin3 (fadd (naive_cell dl dc d (i - 1) (j - 1)) (d i j))
          (fadd (naive_cell dl dc d i (j - 1)) (dc i j))
          (fadd (naive_cell dl dc d (i - 1) j) (dl i j))"
  by (cases i; cases j) simp_all

lemma M_nonneg:
  "costs_ok nbl nbc dl dc d \<Longrightarrow> i < nbl \<Longrightarrow> j < nbc \<Longrightarrow> nonneg (naive_cell dl dc d i j)"
proof (induction dl dc d i j rule: naive_cell.induct)
  case (1 dl dc d)
  then show ?case by (simp add: costs_ok_def)
next
  case (2 dl dc d j)
  then show ?case by (simp add: costs_ok_def nonneg_fadd)
next
  case (3 dl dc d i)
  then show ?case by (simp add: costs_ok_def nonneg_fadd)
next
  case (4 dl dc d i j)
  then show ?case by (simp add: costs_ok_def nonneg_fadd nonneg_fmin fmin3_def)
qed

lemma hi_first_col:
  assumes "costs_ok nbl nbc dl dc d" "0 < i" "i < nbl" "0 < nbc"
    and "flt ub (naive_cell dl dc d (i - 1) 0)"
  shows "flt ub (naive_cell dl dc d i 0)"
proof -
  have "nonneg (naive_cell dl dc d (i - 1) 0)" using M_nonneg [OF assms(1)] assms by simp
  moreover have "nonneg (dl i 0)" using assms by (simp add: costs_ok_def)
  ultimately show ?thesis using assms(2,5) by (simp add: M_rec0 fadd_mono_hi)
qed

lemma hi_cell:
  assumes "costs_ok nbl nbc dl dc d" "0 < i" "i < nbl" "0 < j" "j < nbc"
    and "flt ub (naive_cell dl dc d (i - 1) (j - 1))"
    and "flt ub (naive_cell dl dc d i (j - 1))"
    and "flt ub (naive_cell dl dc d (i - 1) j)"
  shows "flt ub (naive_cell dl dc d i j)"
proof -
  have nn: "nonneg (naive_cell dl dc d (i - 1) (j - 1))" "nonneg (naive_cell dl dc d i (j - 1))"
    "nonneg (naive_cell dl dc d (i - 1) j)"
    using M_nonneg [OF assms(1)] assms by simp_all
  have c: "nonneg (d i j)" "nonneg (dc i j)" "nonneg (dl i j)"
    using assms by (simp_all add: costs_ok_def)
  have h: "flt ub (fadd (naive_cell dl dc d (i - 1) (j - 1)) (d i j))"
    "flt ub (fadd (naive_cell dl dc d i (j - 1)) (dc i j))"
    "flt ub (fadd (naive_cell dl dc d (i - 1) j) (dl i j))"
    using nn c assms(6,7,8) by (simp_all add: fadd_mono_hi)
  have n: "\<not> isnan (fadd (naive_cell dl dc d (i - 1) (j - 1)) (d i j))"
    "\<not> isnan (fadd (naive_cell dl dc d i (j - 1)) (dc i j))"
    "\<not> isnan (fadd (naive_cell dl dc d (i - 1) j) (dl i j))"
    using nn c nonneg_fadd nonneg_not_nan by simp_all
  have "\<not> isnan (fmin (fadd (naive_cell dl dc d i (j - 1)) (dc i j))
                      (fadd (naive_cell dl dc d (i - 1) j) (dl i j)))"
    using n by (simp add: fmin_def)
  then show ?thesis using assms(2,4) h n by (simp add: M_rec fmin3_def flt_fmin)
qed

lemma hi_left:
  assumes "costs_ok nbl nbc dl dc d" "0 < i" "i < nbl" "ns \<le> nbc"
    and "\<forall>k < ns. flt ub (naive_cell dl dc d (i - 1) k)"
  shows "k < ns \<Longrightarrow> flt ub (naive_cell dl dc d i k)"
proof (induction k)
  case 0
  then show ?case using hi_first_col [OF assms(1,2,3)] assms(4,5) by simp
next
  case (Suc k)
  then show ?case using hi_cell [OF assms(1,2,3), of "Suc k" ub] assms(4,5) by simp
qed

lemma hi_right:
  assumes "costs_ok nbl nbc dl dc d" "0 < i" "i < nbl"
    and "\<forall>k. pp0 \<le> k \<and> k < nbc \<longrightarrow> flt ub (naive_cell dl dc d (i - 1) k)"
    and "pp0 \<le> k0" "flt ub (naive_cell dl dc d i k0)"
  shows "k0 \<le> k \<Longrightarrow> k < nbc \<Longrightarrow> flt ub (naive_cell dl dc d i k)"
proof (induction k)
  case 0
  then show ?case using assms(6) by simp
next
  case (Suc k)
  show ?case
  proof (cases "k0 = Suc k")
    case True
    then show ?thesis using assms(6) by simp
  next
    case False
    with Suc.prems have "k0 \<le> k" "k < nbc" by simp_all
    with Suc.IH have "flt ub (naive_cell dl dc d i k)" by simp
    then show ?thesis
      using hi_cell [OF assms(1,2,3), of "Suc k" ub] assms(4,5) Suc.prems \<open>k0 \<le> k\<close> by simp
  qed
qed

lemma hi_next_row:
  assumes "costs_ok nbl nbc dl dc d" "0 < i" "i < nbl"
    and "\<forall>k < nbc. flt ub (naive_cell dl dc d (i - 1) k)"
  shows "\<forall>k < nbc. flt ub (naive_cell dl dc d i k)"
  using hi_left [OF assms(1,2,3) _ assms(4)] by simp

lemma hi_rows:
  assumes "costs_ok nbl nbc dl dc d" "\<forall>k < nbc. flt ub (naive_cell dl dc d i k)"
  shows "i \<le> i' \<Longrightarrow> i' < nbl \<Longrightarrow> \<forall>k < nbc. flt ub (naive_cell dl dc d i' k)"
proof (induction i')
  case 0
  then show ?case using assms(2) by simp
next
  case (Suc i')
  show ?case
  proof (cases "i = Suc i'")
    case True
    then show ?thesis using assms(2) by simp
  next
    case False
    with Suc have "\<forall>k < nbc. flt ub (naive_cell dl dc d i' k)" by simp
    then show ?thesis using hi_next_row [OF assms(1), of "Suc i'" ub] Suc.prems by simp
  qed
qed

lemma good_nonneg: "good ub m x \<Longrightarrow> nonneg x"
  by (simp add: good_def)

lemma fadd_PInf_left: "nonneg x \<Longrightarrow> fadd PInf x = PInf"
  by (auto simp: nonneg_cases)

lemma cell_good:
  assumes "costs_ok nbl nbc dl dc d" "0 < i" "i < nbl" "0 < j" "j < nbc"
    and "good ub (naive_cell dl dc d (i - 1) (j - 1)) a"
    and "good ub (naive_cell dl dc d i (j - 1)) b"
    and "good ub (naive_cell dl dc d (i - 1) j) c"
  shows "good ub (naive_cell dl dc d i j)
           (fmin3 (fadd a (d i j)) (fadd b (dc i j)) (fadd c (dl i j)))"
proof -
  have nn: "nonneg (naive_cell dl dc d (i - 1) (j - 1))" "nonneg (naive_cell dl dc d i (j - 1))"
    "nonneg (naive_cell dl dc d (i - 1) j)"
    using M_nonneg [OF assms(1)] assms by simp_all
  have c: "nonneg (d i j)" "nonneg (dc i j)" "nonneg (dl i j)"
    using assms by (simp_all add: costs_ok_def)
  show ?thesis
    unfolding M_rec [OF assms(2,4)]
    by (intro good_fmin3 good_fadd nonneg_fadd assms nn c)
qed

lemma cell_first_col:
  assumes "costs_ok nbl nbc dl dc d" "0 < i" "i < nbl" "0 < nbc"
    and "good ub (naive_cell dl dc d (i - 1) 0) c"
  shows "good ub (naive_cell dl dc d i 0) (fadd c (dl i 0))"
proof -
  have "nonneg (naive_cell dl dc d (i - 1) 0)" using M_nonneg [OF assms(1)] assms by simp
  moreover have "nonneg (dl i 0)" using assms by (simp add: costs_ok_def)
  ultimately show ?thesis unfolding M_rec0 [OF assms(2)] using assms(5) by (intro good_fadd)
qed

lemma cell_above:
  assumes "costs_ok nbl nbc dl dc d" "0 < i" "i < nbl" "j < nbc"
    and "0 < j \<longrightarrow> flt ub (naive_cell dl dc d (i - 1) (j - 1))"
    and "0 < j \<longrightarrow> flt ub (naive_cell dl dc d i (j - 1))"
    and "good ub (naive_cell dl dc d (i - 1) j) c"
  shows "good ub (naive_cell dl dc d i j) (fadd c (dl i j))"
proof (cases "j = 0")
  case True
  then show ?thesis using cell_first_col [OF assms(1,2,3)] assms(4,7) by simp
next
  case False
  then have j: "0 < j" by simp
  have c: "nonneg (d i j)" "nonneg (dc i j)" "nonneg (dl i j)"
    using assms j by (simp_all add: costs_ok_def)
  have n: "\<not> isnan (fadd c (dl i j))"
    using good_nonneg [OF assms(7)] c nonneg_fadd nonneg_not_nan by simp
  have "good ub (naive_cell dl dc d i j)
           (fmin3 (fadd PInf (d i j)) (fadd PInf (dc i j)) (fadd c (dl i j)))"
    using cell_good [OF assms(1,2,3) j assms(4) _ _ assms(7)] assms(5,6) j good_PInf by simp
  then show ?thesis using c n by (simp add: fadd_PInf_left fmin3_def fmin_PInf_left)
qed

lemma cell_diag_above:
  assumes "costs_ok nbl nbc dl dc d" "0 < i" "i < nbl" "0 < j" "j < nbc"
    and "good ub (naive_cell dl dc d (i - 1) (j - 1)) a"
    and "flt ub (naive_cell dl dc d i (j - 1))"
    and "good ub (naive_cell dl dc d (i - 1) j) c"
  shows "good ub (naive_cell dl dc d i j) (fmin (fadd a (d i j)) (fadd c (dl i j)))"
proof -
  have c: "nonneg (d i j)" "nonneg (dc i j)" "nonneg (dl i j)"
    using assms by (simp_all add: costs_ok_def)
  have n: "\<not> isnan (fadd c (dl i j))"
    using good_nonneg [OF assms(8)] c nonneg_fadd nonneg_not_nan by simp
  have "good ub (naive_cell dl dc d i j)
           (fmin3 (fadd a (d i j)) (fadd PInf (dc i j)) (fadd c (dl i j)))"
    using cell_good [OF assms(1,2,3,4,5,6) _ assms(8)] assms(7) good_PInf by simp
  then show ?thesis using c n by (simp add: fadd_PInf_left fmin3_def fmin_PInf_left)
qed

lemma cell_diag:
  assumes "costs_ok nbl nbc dl dc d" "0 < i" "i < nbl" "0 < j" "j < nbc"
    and "good ub (naive_cell dl dc d (i - 1) (j - 1)) a"
    and "flt ub (naive_cell dl dc d i (j - 1))"
    and "flt ub (naive_cell dl dc d (i - 1) j)"
  shows "good ub (naive_cell dl dc d i j) (fadd a (d i j))"
proof -
  have c: "nonneg (d i j)" "nonneg (dc i j)" "nonneg (dl i j)"
    using assms by (simp_all add: costs_ok_def)
  have n: "\<not> isnan (fadd a (d i j))"
    using good_nonneg [OF assms(6)] c nonneg_fadd nonneg_not_nan by simp
  have "good ub (naive_cell dl dc d i j)
           (fmin3 (fadd a (d i j)) (fadd PInf (dc i j)) (fadd PInf (dl i j)))"
    using cell_good [OF assms(1,2,3,4,5,6)] assms(7,8) good_PInf by simp
  then show ?thesis using c n by (simp add: fadd_PInf_left fmin3_def fmin_PInf_left fmin_PInf_right)
qed

lemma cell_diag_left:
  assumes "costs_ok nbl nbc dl dc d" "0 < i" "i < nbl" "0 < j" "j < nbc"
    and "good ub (naive_cell dl dc d (i - 1) (j - 1)) a"
    and "good ub (naive_cell dl dc d i (j - 1)) b"
    and "flt ub (naive_cell dl dc d (i - 1) j)"
  shows "good ub (naive_cell dl dc d i j) (fmin (fadd a (d i j)) (fadd b (dc i j)))"
proof -
  have c: "nonneg (d i j)" "nonneg (dc i j)" "nonneg (dl i j)"
    using assms by (simp_all add: costs_ok_def)
  have n: "\<not> isnan (fadd b (dc i j))"
    using good_nonneg [OF assms(7)] c nonneg_fadd nonneg_not_nan by simp
  have "good ub (naive_cell dl dc d i j)
           (fmin3 (fadd a (d i j)) (fadd b (dc i j)) (fadd PInf (dl i j)))"
    using cell_good [OF assms(1,2,3,4,5,6,7)] assms(8) good_PInf by simp
  then show ?thesis using c n by (simp add: fadd_PInf_left fmin3_def fmin_PInf_right)
qed

lemma cell_left:
  assumes "costs_ok nbl nbc dl dc d" "0 < i" "i < nbl" "0 < j" "j < nbc"
    and "flt ub (naive_cell dl dc d (i - 1) (j - 1))"
    and "good ub (naive_cell dl dc d i (j - 1)) b"
    and "flt ub (naive_cell dl dc d (i - 1) j)"
  shows "good ub (naive_cell dl dc d i j) (fadd b (dc i j))"
proof -
  have c: "nonneg (d i j)" "nonneg (dc i j)" "nonneg (dl i j)"
    using assms by (simp_all add: costs_ok_def)
  have n: "\<not> isnan (fadd b (dc i j))"
    using good_nonneg [OF assms(7)] c nonneg_fadd nonneg_not_nan by simp
  have "good ub (naive_cell dl dc d i j)
           (fmin3 (fadd PInf (d i j)) (fadd b (dc i j)) (fadd PInf (dl i j)))"
    using cell_good [OF assms(1,2,3,4,5) _ assms(7)] assms(6,8) good_PInf by simp
  then show ?thesis using c n by (simp add: fadd_PInf_left fmin3_def fmin_PInf_left fmin_PInf_right)
qed

lemma good_hi: "good ub m x \<Longrightarrow> \<not> isnan ub \<Longrightarrow> \<not> fle x ub \<Longrightarrow> flt ub m \<and> flt ub x"
  using nonneg_not_nan not_fle_iff by (auto simp: good_def)

lemma buf_c:
  "bases nbc c p \<Longrightarrow> length buf = 2 * nbc \<Longrightarrow> j < nbc \<Longrightarrow> k < nbc \<Longrightarrow>
   buf[c + j := v] ! (c + k) = (if k = j then v else buf ! (c + k))"
  by (auto simp: bases_def)

lemma buf_p:
  "bases nbc c p \<Longrightarrow> length buf = 2 * nbc \<Longrightarrow> j < nbc \<Longrightarrow> k < nbc \<Longrightarrow>
   buf[c + j := v] ! (p + k) = buf ! (p + k)"
  by (auto simp: bases_def)


lemma left_cell:
  assumes "\<forall>k. ns \<le> k \<and> k < j \<longrightarrow> good ub (Mrow k) (buf ! (c + k))"
    and "\<forall>k. Suc k = j \<longrightarrow> buf ! (c + k) = cost" and "ns < j"
  shows "good ub (Mrow (j - 1)) cost"
proof (cases j)
  case 0
  then show ?thesis using assms(3) by simp
next
  case (Suc k)
  then have "ns \<le> k \<and> k < j" using assms(3) by simp
  with assms(1) have "good ub (Mrow k) (buf ! (c + k))" by blast
  then show ?thesis using assms(2) Suc by simp
qed

lemma stage0_inv:
  assumes ctx: "row_ctx nbl nbc dl dc d cutoff ub i"
    and prev: "prev_inv ub (naive_cell dl dc d (i - 1)) nbc prow ns0 pp0"
    and buf: "length buf = 2 * nbc" "bases nbc c p" "\<forall>k < nbc. buf ! (p + k) = prow k"
  shows "cur_inv ub (naive_cell dl dc d i) nbc prow c p ns0 (stage0 dl ub i c p buf ns0)"
proof -
  let ?M = "naive_cell dl dc d"
  from ctx have co: "costs_ok nbl nbc dl dc d" and i: "0 < i" "i < nbl" and nub: "\<not> isnan ub"
    by (simp_all add: row_ctx_def)
  from prev have ns0: "ns0 < pp0" "pp0 \<le> nbc" "ns0 < nbc"
    and left0: "\<forall>k < ns0. flt ub (?M (i - 1) k)"
    and g0: "good ub (?M (i - 1) ns0) (prow ns0)"
    by (simp_all add: prev_inv_def)
  have left: "\<forall>k < ns0. flt ub (?M i k)"
    using hi_left [OF co i _ left0] ns0 by simp
  let ?cost = "fadd (buf ! (p + ns0)) (dl i ns0)"
  have pe: "buf ! (p + ns0) = prow ns0" using buf(3) ns0 by simp
  have g: "good ub (?M i ns0) ?cost"
    unfolding pe using cell_above [OF co i ns0(3) _ _ g0] left0 left by simp
  let ?buf = "buf[c + ns0 := ?cost]"
  have len: "length ?buf = 2 * nbc" using buf(1) by simp
  have pr: "\<forall>k < nbc. ?buf ! (p + k) = prow k"
    using buf_p [OF buf(2,1) ns0(3)] buf(3) by simp
  have cc: "?buf ! (c + ns0) = ?cost" using buf_c [OF buf(2,1) ns0(3) ns0(3)] by simp
  show ?thesis
  proof (cases "fle ?cost ub")
    case True
    have "stage0 dl ub i c p buf ns0 = (?buf, ns0 + 1, ?cost, ns0, ns0 + 1)"
      using True by (simp add: stage0_def Let_def)
    moreover have "\<forall>k. ns0 \<le> k \<and> k < ns0 + 1 \<longrightarrow> good ub (?M i k) (?buf ! (c + k))"
      using g cc by (auto simp: less_Suc_eq_le le_antisym)
    ultimately show ?thesis
      using len pr left ns0 buf(2) g cc good_nonneg [OF g]
      by (simp add: cur_inv_def)
  next
    case False
    have st: "stage0 dl ub i c p buf ns0 = (?buf, ns0 + 1, ?cost, ns0 + 1, ns0)"
      using False by (simp add: stage0_def Let_def)
    from good_hi [OF g nub False] have h: "flt ub (?M i ns0)" "flt ub ?cost" by simp_all
    have l2: "\<forall>k < ns0 + 1. flt ub (?M i k)" using left h(1) by (auto simp: less_Suc_eq)
    have l3: "\<forall>k. ns0 \<le> k \<and> k < ns0 + 1 \<longrightarrow> flt ub (?M i k)" using h(1) by (auto simp: less_Suc_eq_le le_antisym)
    show ?thesis
      unfolding st using len pr l2 l3 ns0 buf(2) cc good_nonneg [OF g] h(2)
      by (auto simp add: cur_inv_def)
  qed
qed

lemma prow_pred:
  assumes "\<forall>k < nbc. buf ! (p + k) = prow k" "0 < j" "j \<le> nbc"
  shows "buf ! (p + j - 1) = prow (j - 1)"
proof -
  have "j - 1 < nbc" using assms(2,3) by arith
  with assms(1) have "buf ! (p + (j - 1)) = prow (j - 1)" by blast
  moreover have "p + (j - 1) = p + j - 1" using assms(2) by arith
  ultimately show ?thesis by metis
qed

lemma stage1_step:
  assumes ctx: "row_ctx nbl nbc dl dc d cutoff ub i"
    and prev: "prev_inv ub (naive_cell dl dc d (i - 1)) nbc prow ns0 pp0"
    and inv: "cur_inv ub (naive_cell dl dc d i) nbc prow c p ns0 (buf, j, cost, ns, cpp)"
    and j: "j = ns" "j < pp0"
    and cost': "cost' = fmin (fadd (buf ! (p + j - 1)) (d i j)) (fadd (buf ! (p + j)) (dl i j))"
  shows "(if fle cost' ub
          then cur_inv ub (naive_cell dl dc d i) nbc prow c p ns0 (buf[c + j := cost'], j + 1, cost', ns, j + 1)
          else cur_inv ub (naive_cell dl dc d i) nbc prow c p ns0 (buf[c + j := cost'], j + 1, cost', ns + 1, cpp))"
proof -
  let ?M = "naive_cell dl dc d"
  from ctx have co: "costs_ok nbl nbc dl dc d" and i: "0 < i" "i < nbl" and nub: "\<not> isnan ub"
    by (simp_all add: row_ctx_def)
  from prev have pp0: "pp0 \<le> nbc"
    and g0: "\<forall>k. ns0 \<le> k \<and> k < pp0 \<longrightarrow> good ub (?M (i - 1) k) (prow k)"
    by (simp_all add: prev_inv_def)
  from inv have len: "length buf = 2 * nbc" and bs: "bases nbc c p"
    and pr: "\<forall>k < nbc. buf ! (p + k) = prow k"
    and o: "ns0 \<le> ns" "ns0 < j" "cpp \<le> j"
    and left: "\<forall>k < ns. flt ub (?M i k)"
    and hi: "\<forall>k. cpp \<le> k \<and> k < j \<longrightarrow> flt ub (?M i k)"
    by (simp_all add: cur_inv_def)
  have jn: "j < nbc" "0 < j" using j pp0 o by simp_all
  have e1: "buf ! (p + j - 1) = prow (j - 1)"
    using prow_pred [OF pr jn(2)] jn(1) by simp
  have e2: "buf ! (p + j) = prow j" using pr jn by simp
  have "ns0 \<le> j - 1 \<and> j - 1 < pp0" using o j by arith
  with g0 have ga: "good ub (?M (i - 1) (j - 1)) (prow (j - 1))" by blast
  have gc: "good ub (?M (i - 1) j) (prow j)" using g0 o j by simp
  have "j - 1 < ns" using j jn by arith
  with left have hb: "flt ub (?M i (j - 1))" by blast
  have g: "good ub (?M i j) cost'"
    unfolding cost' e1 e2 by (rule cell_diag_above [OF co i jn(2,1) ga hb gc])
  let ?buf = "buf[c + j := cost']"
  have len': "length ?buf = 2 * nbc" using len by simp
  have pr': "\<forall>k < nbc. ?buf ! (p + k) = prow k"
    using buf_p [OF bs len jn(1)] pr by simp
  have cc: "?buf ! (c + j) = cost'" using buf_c [OF bs len jn(1) jn(1)] by simp
  show ?thesis
  proof (cases "fle cost' ub")
    case True
    have "\<forall>k. ns \<le> k \<and> k < j + 1 \<longrightarrow> good ub (?M i k) (?buf ! (c + k))"
      using g cc j by (auto simp: less_Suc_eq_le le_antisym)
    then show ?thesis
      using True len' pr' bs o left jn j pp0 cc good_nonneg [OF g]
      by (auto simp add: cur_inv_def)
  next
    case False
    from good_hi [OF g nub False] have h: "flt ub (?M i j)" "flt ub cost'" by simp_all
    have l2: "\<forall>k < ns + 1. flt ub (?M i k)" using left h(1) j by (auto simp: less_Suc_eq)
    have l3: "\<forall>k. cpp \<le> k \<and> k < j + 1 \<longrightarrow> flt ub (?M i k)"
      using hi h(1) by (auto simp: less_Suc_eq)
    show ?thesis
      using False len' pr' bs o l2 l3 jn j pp0 cc good_nonneg [OF g] h(2)
      by (auto simp add: cur_inv_def)
  qed
qed

lemma stage1_stop:
  "\<not> (j = ns \<and> j < pp0) \<Longrightarrow>
   stage1 dl d ub pp0 i c p buf j cost ns cpp = (buf, j, cost, ns, cpp)"
  by (subst stage1.simps) (simp only: if_False)

lemma stage1_inv:
  assumes ctx: "row_ctx nbl nbc dl dc d cutoff ub i"
    and prev: "prev_inv ub (naive_cell dl dc d (i - 1)) nbc prow ns0 pp0"
  shows "cur_inv ub (naive_cell dl dc d i) nbc prow c p ns0 (buf, j, cost, ns, cpp) \<Longrightarrow> j \<le> pp0 \<Longrightarrow>
     cur_inv ub (naive_cell dl dc d i) nbc prow c p ns0 (stage1 dl d ub pp0 i c p buf j cost ns cpp) \<and>
     (case stage1 dl d ub pp0 i c p buf j cost ns cpp of
        (buf', j', cost', ns', cpp') \<Rightarrow> j' \<le> pp0 \<and> (j' = ns' \<longrightarrow> j' = pp0))"
proof (induction "pp0 - j" arbitrary: buf j cost ns cpp)
  case 0
  then have "\<not> (j = ns \<and> j < pp0)" by simp
  then have "stage1 dl d ub pp0 i c p buf j cost ns cpp = (buf, j, cost, ns, cpp)"
    by (rule stage1_stop)
  then show ?case using 0 by auto
next
  case (Suc n)
  show ?case
  proof (cases "j = ns \<and> j < pp0")
    case False
    then have "stage1 dl d ub pp0 i c p buf j cost ns cpp = (buf, j, cost, ns, cpp)"
      by (rule stage1_stop)
    then show ?thesis using Suc.prems False by auto
  next
    case True
    define cost' where "cost' = fmin (fadd (buf ! (p + j - 1)) (d i j)) (fadd (buf ! (p + j)) (dl i j))"
    have n: "n = pp0 - (j + 1)" "j + 1 \<le> pp0" using Suc.hyps(2) True by simp_all
    note step = stage1_step [OF ctx prev Suc.prems(1) _ _ cost'_def]
    show ?thesis
    proof (cases "fle cost' ub")
      case T: True
      have e: "stage1 dl d ub pp0 i c p buf j cost ns cpp =
          stage1 dl d ub pp0 i c p (buf[c + j := cost']) (j + 1) cost' ns (j + 1)"
        using True T by (subst stage1.simps) (simp add: cost'_def Let_def)
      have "cur_inv ub (naive_cell dl dc d i) nbc prow c p ns0 (buf[c + j := cost'], j + 1, cost', ns, j + 1)"
        using step T True by simp
      from Suc.hyps(1) [OF n(1) this n(2)] show ?thesis unfolding e .
    next
      case F: False
      have e: "stage1 dl d ub pp0 i c p buf j cost ns cpp =
          stage1 dl d ub pp0 i c p (buf[c + j := cost']) (j + 1) cost' (ns + 1) cpp"
        using True F by (subst stage1.simps) (simp add: cost'_def Let_def)
      have "cur_inv ub (naive_cell dl dc d i) nbc prow c p ns0 (buf[c + j := cost'], j + 1, cost', ns + 1, cpp)"
        using step F True by simp
      from Suc.hyps(1) [OF n(1) this n(2)] show ?thesis unfolding e .
    qed
  qed
qed

lemma stage2_step:
  assumes ctx: "row_ctx nbl nbc dl dc d cutoff ub i"
    and prev: "prev_inv ub (naive_cell dl dc d (i - 1)) nbc prow ns0 pp0"
    and inv: "cur_inv ub (naive_cell dl dc d i) nbc prow c p ns0 (buf, j, cost, ns, cpp)"
    and j: "ns < j" "j < pp0"
    and cost': "cost' = fmin3 (fadd (buf ! (p + j - 1)) (d i j)) (fadd cost (dc i j))
                           (fadd (buf ! (p + j)) (dl i j))"
  shows "cur_inv ub (naive_cell dl dc d i) nbc prow c p ns0
           (buf[c + j := cost'], j + 1, cost', ns, if fle cost' ub then j + 1 else cpp)"
proof -
  let ?M = "naive_cell dl dc d"
  from ctx have co: "costs_ok nbl nbc dl dc d" and i: "0 < i" "i < nbl" and nub: "\<not> isnan ub"
    by (simp_all add: row_ctx_def)
  from prev have pp0: "pp0 \<le> nbc"
    and g0: "\<forall>k. ns0 \<le> k \<and> k < pp0 \<longrightarrow> good ub (?M (i - 1) k) (prow k)"
    by (simp_all add: prev_inv_def)
  from inv have len: "length buf = 2 * nbc" and bs: "bases nbc c p"
    and pr: "\<forall>k < nbc. buf ! (p + k) = prow k"
    and o: "ns0 \<le> ns" "ns0 < j" "cpp \<le> j" "ns < j \<longrightarrow> ns < cpp"
    and left: "\<forall>k < ns. flt ub (?M i k)"
    and gd: "\<forall>k. ns \<le> k \<and> k < j \<longrightarrow> good ub (?M i k) (buf ! (c + k))"
    and hi: "\<forall>k. cpp \<le> k \<and> k < j \<longrightarrow> flt ub (?M i k)"
    and ce: "\<forall>k. Suc k = j \<longrightarrow> buf ! (c + k) = cost"
    by (simp_all add: cur_inv_def)
  have jn: "j < nbc" "0 < j" using j pp0 o by simp_all
  have e1: "buf ! (p + j - 1) = prow (j - 1)"
    using prow_pred [OF pr jn(2)] jn(1) by simp
  have e2: "buf ! (p + j) = prow j" using pr jn by simp
  have "ns0 \<le> j - 1 \<and> j - 1 < pp0" using o j by arith
  with g0 have ga: "good ub (?M (i - 1) (j - 1)) (prow (j - 1))" by blast
  have gc: "good ub (?M (i - 1) j) (prow j)" using g0 o j by simp
  have gb: "good ub (?M i (j - 1)) cost" by (rule left_cell [OF gd ce j(1)])
  have g: "good ub (?M i j) cost'"
    unfolding cost' e1 e2 by (rule cell_good [OF co i jn(2,1) ga gb gc])
  let ?buf = "buf[c + j := cost']"
  have len': "length ?buf = 2 * nbc" using len by simp
  have pr': "\<forall>k < nbc. ?buf ! (p + k) = prow k"
    using buf_p [OF bs len jn(1)] pr by simp
  have cc: "?buf ! (c + j) = cost'" using buf_c [OF bs len jn(1) jn(1)] by simp
  have gd': "\<forall>k. ns \<le> k \<and> k < j + 1 \<longrightarrow> good ub (?M i k) (?buf ! (c + k))"
  proof (intro allI impI)
    fix k assume k: "ns \<le> k \<and> k < j + 1"
    show "good ub (?M i k) (?buf ! (c + k))"
    proof (cases "k = j")
      case True
      then show ?thesis using g cc by simp
    next
      case False
      with k have "k < j" "k < nbc" using jn by simp_all
      then show ?thesis using buf_c [OF bs len jn(1), of k cost'] gd k False by simp
    qed
  qed
  show ?thesis
  proof (cases "fle cost' ub")
    case True
    then show ?thesis
      using len' pr' bs o left gd' jn j pp0 cc good_nonneg [OF g]
      by (auto simp add: cur_inv_def)
  next
    case False
    from good_hi [OF g nub False] have h: "flt ub (?M i j)" "flt ub cost'" by simp_all
    have l3: "\<forall>k. cpp \<le> k \<and> k < j + 1 \<longrightarrow> flt ub (?M i k)"
      using hi h(1) by (auto simp: less_Suc_eq)
    show ?thesis
      using False len' pr' bs o left gd' l3 jn j pp0 cc good_nonneg [OF g]
      by (auto simp add: cur_inv_def)
  qed
qed

lemma stage2_stop:
  "\<not> j < pp0 \<Longrightarrow>
   stage2 dl dc d ub pp0 i c p buf j cost ns cpp = (buf, j, cost, ns, cpp)"
  by (subst stage2.simps) (simp only: if_False)

lemma stage2_inv:
  assumes ctx: "row_ctx nbl nbc dl dc d cutoff ub i"
    and prev: "prev_inv ub (naive_cell dl dc d (i - 1)) nbc prow ns0 pp0"
  shows "cur_inv ub (naive_cell dl dc d i) nbc prow c p ns0 (buf, j, cost, ns, cpp) \<Longrightarrow>
     j \<le> pp0 \<Longrightarrow> ns < j \<or> j = pp0 \<Longrightarrow>
     cur_inv ub (naive_cell dl dc d i) nbc prow c p ns0 (stage2 dl dc d ub pp0 i c p buf j cost ns cpp) \<and>
     (case stage2 dl dc d ub pp0 i c p buf j cost ns cpp of
        (buf', j', cost', ns', cpp') \<Rightarrow> j' = pp0 \<and> ns' = ns)"
proof (induction "pp0 - j" arbitrary: buf j cost cpp)
  case 0
  then have "\<not> j < pp0" by simp
  then have "stage2 dl dc d ub pp0 i c p buf j cost ns cpp = (buf, j, cost, ns, cpp)"
    by (rule stage2_stop)
  then show ?case using 0 by auto
next
  case (Suc n)
  then have lt: "j < pp0" "ns < j" by auto
  define cost' where "cost' = fmin3 (fadd (buf ! (p + j - 1)) (d i j)) (fadd cost (dc i j))
                           (fadd (buf ! (p + j)) (dl i j))"
  have n: "n = pp0 - (j + 1)" "j + 1 \<le> pp0" "ns < j + 1 \<or> j + 1 = pp0"
    using Suc.hyps(2) lt by simp_all
  have e: "stage2 dl dc d ub pp0 i c p buf j cost ns cpp =
      stage2 dl dc d ub pp0 i c p (buf[c + j := cost']) (j + 1) cost' ns
        (if fle cost' ub then j + 1 else cpp)"
    using lt by (subst stage2.simps) (simp add: cost'_def Let_def)
  note step = stage2_step [OF ctx prev Suc.prems(1) lt(2,1) cost'_def]
  from Suc.hyps(1) [OF n(1) step n(2,3)] show ?case unfolding e .
qed

lemma stage4_step:
  assumes ctx: "row_ctx nbl nbc dl dc d cutoff ub i"
    and prev: "prev_inv ub (naive_cell dl dc d (i - 1)) nbc prow ns0 pp0"
    and inv: "cur_inv ub (naive_cell dl dc d i) nbc prow c p ns0 (buf, j, cost, ns, cpp)"
    and j: "ns < j" "pp0 < j" "j = cpp" "j < nbc"
    and cost': "cost' = fadd cost (dc i j)"
  shows "cur_inv ub (naive_cell dl dc d i) nbc prow c p ns0
           (buf[c + j := cost'], j + 1, cost', ns, if fle cost' ub then cpp + 1 else cpp)"
proof -
  let ?M = "naive_cell dl dc d"
  from ctx have co: "costs_ok nbl nbc dl dc d" and i: "0 < i" "i < nbl" and nub: "\<not> isnan ub"
    by (simp_all add: row_ctx_def)
  from prev have pp0: "pp0 \<le> nbc"
    and h0: "\<forall>k. pp0 \<le> k \<and> k < nbc \<longrightarrow> flt ub (?M (i - 1) k)"
    by (simp_all add: prev_inv_def)
  from inv have len: "length buf = 2 * nbc" and bs: "bases nbc c p"
    and pr: "\<forall>k < nbc. buf ! (p + k) = prow k"
    and o: "ns0 \<le> ns" "ns0 < j" "cpp \<le> j" "ns < j \<longrightarrow> ns < cpp"
    and left: "\<forall>k < ns. flt ub (?M i k)"
    and gd: "\<forall>k. ns \<le> k \<and> k < j \<longrightarrow> good ub (?M i k) (buf ! (c + k))"
    and hi: "\<forall>k. cpp \<le> k \<and> k < j \<longrightarrow> flt ub (?M i k)"
    and ce: "\<forall>k. Suc k = j \<longrightarrow> buf ! (c + k) = cost"
    by (simp_all add: cur_inv_def)
  have jn: "j < nbc" "0 < j" using j by simp_all
  have "pp0 \<le> j - 1 \<and> j - 1 < nbc" using j by arith
  with h0 have ha: "flt ub (?M (i - 1) (j - 1))" by blast
  have hc: "flt ub (?M (i - 1) j)" using h0 j by simp
  have gb: "good ub (?M i (j - 1)) cost" by (rule left_cell [OF gd ce j(1)])
  have g: "good ub (?M i j) cost'"
    unfolding cost' by (rule cell_left [OF co i jn(2,1) ha gb hc])
  let ?buf = "buf[c + j := cost']"
  have len': "length ?buf = 2 * nbc" using len by simp
  have pr': "\<forall>k < nbc. ?buf ! (p + k) = prow k"
    using buf_p [OF bs len jn(1)] pr by simp
  have cc: "?buf ! (c + j) = cost'" using buf_c [OF bs len jn(1) jn(1)] by simp
  have gd': "\<forall>k. ns \<le> k \<and> k < j + 1 \<longrightarrow> good ub (?M i k) (?buf ! (c + k))"
  proof (intro allI impI)
    fix k assume k: "ns \<le> k \<and> k < j + 1"
    show "good ub (?M i k) (?buf ! (c + k))"
    proof (cases "k = j")
      case True
      then show ?thesis using g cc by simp
    next
      case False
      with k have "k < j" "k < nbc" using jn by simp_all
      then show ?thesis using buf_c [OF bs len jn(1), of k cost'] gd k False by simp
    qed
  qed
  show ?thesis
  proof (cases "fle cost' ub")
    case True
    then show ?thesis
      using len' pr' bs o left gd' jn j cc good_nonneg [OF g]
      by (auto simp add: cur_inv_def)
  next
    case False
    from good_hi [OF g nub False] have h: "flt ub (?M i j)" "flt ub cost'" by simp_all
    have l3: "\<forall>k. cpp \<le> k \<and> k < j + 1 \<longrightarrow> flt ub (?M i k)"
      using hi h(1) by (auto simp: less_Suc_eq)
    show ?thesis
      using False len' pr' bs o left gd' l3 jn j cc good_nonneg [OF g]
      by (auto simp add: cur_inv_def)
  qed
qed

lemma stage4_stop:
  "\<not> (j = cpp \<and> j < nbc) \<Longrightarrow>
   stage4 nbc dc ub i c buf j cost ns cpp = (buf, j, cost, ns, cpp)"
  by (subst stage4.simps) (simp only: if_False)

lemma stage4_inv:
  assumes ctx: "row_ctx nbl nbc dl dc d cutoff ub i"
    and prev: "prev_inv ub (naive_cell dl dc d (i - 1)) nbc prow ns0 pp0"
  shows "cur_inv ub (naive_cell dl dc d i) nbc prow c p ns0 (buf, j, cost, ns, cpp) \<Longrightarrow>
     ns < j \<Longrightarrow> pp0 < j \<or> j = nbc \<Longrightarrow>
     cur_inv ub (naive_cell dl dc d i) nbc prow c p ns0 (stage4 nbc dc ub i c buf j cost ns cpp) \<and>
     (case stage4 nbc dc ub i c buf j cost ns cpp of
        (buf', j', cost', ns', cpp') \<Rightarrow>
          ns' < j' \<and> (j' = nbc \<or> cpp' < j') \<and> (pp0 < j' \<or> j' = nbc))"
proof (induction "nbc - j" arbitrary: buf j cost cpp)
  case 0
  from 0(2) have "j \<le> nbc" "cpp \<le> j" by (simp_all add: cur_inv_def)
  with 0(1) have jn: "j = nbc" by simp
  then have "stage4 nbc dc ub i c buf j cost ns cpp = (buf, j, cost, ns, cpp)"
    by (intro stage4_stop) simp
  then show ?case using 0 jn by auto
next
  case (Suc n)
  from Suc.prems(1) have le: "j \<le> nbc" "cpp \<le> j" by (simp_all add: cur_inv_def)
  show ?case
  proof (cases "j = cpp \<and> j < nbc")
    case False
    then have "stage4 nbc dc ub i c buf j cost ns cpp = (buf, j, cost, ns, cpp)"
      by (rule stage4_stop)
    moreover have "j = nbc \<or> cpp < j" using False le by auto
    ultimately show ?thesis using Suc.prems by auto
  next
    case True
    with Suc.prems(3) have pj: "pp0 < j" by auto
    define cost' where "cost' = fadd cost (dc i j)"
    have n: "n = nbc - (j + 1)" "ns < j + 1" "pp0 < j + 1 \<or> j + 1 = nbc"
      using Suc.hyps(2) Suc.prems(2) pj by simp_all
    have e: "stage4 nbc dc ub i c buf j cost ns cpp =
        stage4 nbc dc ub i c (buf[c + j := cost']) (j + 1) cost' ns
          (if fle cost' ub then cpp + 1 else cpp)"
      using True by (subst stage4.simps) (simp add: cost'_def Let_def)
    have step: "cur_inv ub (naive_cell dl dc d i) nbc prow c p ns0
           (buf[c + j := cost'], j + 1, cost', ns, if fle cost' ub then cpp + 1 else cpp)"
      using stage4_step [OF ctx prev Suc.prems(1,2) pj _ _ cost'_def] True by simp
    from Suc.hyps(1) [OF n(1) step n(2,3)] show ?thesis unfolding e .
  qed
qed

lemma stage3_inv:
  assumes ctx: "row_ctx nbl nbc dl dc d cutoff ub i"
    and prev: "prev_inv ub (naive_cell dl dc d (i - 1)) nbc prow ns0 pp0"
    and inv: "cur_inv ub (naive_cell dl dc d i) nbc prow c p ns0 (buf, j, cost, ns, cpp)"
    and jp: "j = pp0"
  shows "case stage3 nbl nbc dc d cutoff ub i c p buf j cost ns cpp of
           Inl r \<Rightarrow> fst r = PInf \<and> (\<forall>k < nbc. flt ub (naive_cell dl dc d i k))
         | Inr v' \<Rightarrow> cur_inv ub (naive_cell dl dc d i) nbc prow c p ns0 v' \<and>
             (case v' of (buf', j', cost', ns', cpp') \<Rightarrow> ns' < j' \<and> (pp0 < j' \<or> j' = nbc))"
proof -
  let ?M = "naive_cell dl dc d"
  from ctx have co: "costs_ok nbl nbc dl dc d" and i: "0 < i" "i < nbl" and nub: "\<not> isnan ub"
    and ncut: "\<not> isnan cutoff" and u2: "\<forall>x. nonneg x \<longrightarrow> fle x cutoff \<longrightarrow> fle x ub"
    by (simp_all add: row_ctx_def)
  from prev have pp0: "pp0 \<le> nbc"
    and g0: "\<forall>k. ns0 \<le> k \<and> k < pp0 \<longrightarrow> good ub (?M (i - 1) k) (prow k)"
    and h0: "\<forall>k. pp0 \<le> k \<and> k < nbc \<longrightarrow> flt ub (?M (i - 1) k)"
    by (simp_all add: prev_inv_def)
  from inv have len: "length buf = 2 * nbc" and bs: "bases nbc c p"
    and pr: "\<forall>k < nbc. buf ! (p + k) = prow k"
    and o: "ns0 \<le> ns" "ns \<le> j" "ns0 < j" "cpp \<le> j" "ns < j \<longrightarrow> ns < cpp" "j \<le> nbc"
    and left: "\<forall>k < ns. flt ub (?M i k)"
    and gd: "\<forall>k. ns \<le> k \<and> k < j \<longrightarrow> good ub (?M i k) (buf ! (c + k))"
    and hi: "\<forall>k. cpp \<le> k \<and> k < j \<longrightarrow> flt ub (?M i k)"
    and ce: "\<forall>k. Suc k = j \<longrightarrow> buf ! (c + k) = cost" and nc: "nonneg cost" and hc: "ns = j \<longrightarrow> flt ub cost"
    by (simp_all add: cur_inv_def)
  show ?thesis
  proof (cases "j < nbc")
    case jn: True
    have j0: "0 < j" using o by simp
    have e1: "buf ! (p + j - 1) = prow (j - 1)"
      using prow_pred [OF pr j0] jn by simp
    have "ns0 \<le> j - 1 \<and> j - 1 < pp0" using o jp by arith
    with g0 have ga: "good ub (?M (i - 1) (j - 1)) (prow (j - 1))" by blast
    have habove: "flt ub (?M (i - 1) j)" using h0 jp jn by simp
    show ?thesis
    proof (cases "j = ns")
      case True
      define cost' where "cost' = fadd (buf ! (p + j - 1)) (d i j)"
      have "j - 1 < ns" using True j0 by arith
      with left have hb: "flt ub (?M i (j - 1))" by blast
      have g: "good ub (?M i j) cost'"
        unfolding cost'_def e1 by (rule cell_diag [OF co i j0 jn ga hb habove])
      let ?buf = "buf[c + j := cost']"
      have len': "length ?buf = 2 * nbc" using len by simp
      have pr': "\<forall>k < nbc. ?buf ! (p + k) = prow k"
        using buf_p [OF bs len jn] pr by simp
      have cc: "?buf ! (c + j) = cost'" using buf_c [OF bs len jn jn] by simp
      show ?thesis
      proof (cases "fle cost' ub")
        case T: True
        have st: "stage3 nbl nbc dc d cutoff ub i c p buf j cost ns cpp
            = Inr (?buf, j + 1, cost', ns, j + 1)"
          using jn True T by (simp add: stage3_def cost'_def Let_def)
        have "\<forall>k. ns \<le> k \<and> k < j + 1 \<longrightarrow> good ub (?M i k) (?buf ! (c + k))"
          using g cc True by (auto simp: less_Suc_eq_le le_antisym)
        then have "cur_inv ub (?M i) nbc prow c p ns0 (?buf, j + 1, cost', ns, j + 1)"
          using len' pr' bs o left jn True cc good_nonneg [OF g]
          by (auto simp add: cur_inv_def)
        then show ?thesis unfolding st using True jp by simp
      next
        case F: False
        from good_hi [OF g nub F] have h: "flt ub (?M i j)" "flt ub cost'" by simp_all
        have "\<not> fle cost' cutoff" using u2 good_nonneg [OF g] F by blast
        then have st: "stage3 nbl nbc dc d cutoff ub i c p buf j cost ns cpp = Inl (PInf, ?buf)"
          using jn True F by (simp add: stage3_def cost'_def Let_def)
        have "\<forall>k < nbc. flt ub (?M i k)"
        proof (intro allI impI)
          fix k assume k: "k < nbc"
          show "flt ub (?M i k)"
          proof (cases "k < j")
            case True
            then show ?thesis using left \<open>j = ns\<close> by simp
          next
            case False
            then have "j \<le> k" by simp
            from hi_right [OF co i h0 _ h(1) this k] jp show ?thesis by simp
          qed
        qed
        then show ?thesis unfolding st by simp
      qed
    next
      case False
      then have nsj: "ns < j" using o by simp
      define cost' where "cost' = fmin (fadd (buf ! (p + j - 1)) (d i j)) (fadd cost (dc i j))"
      have gb: "good ub (?M i (j - 1)) cost" by (rule left_cell [OF gd ce nsj])
      have g: "good ub (?M i j) cost'"
        unfolding cost'_def e1 by (rule cell_diag_left [OF co i j0 jn ga gb habove])
      let ?buf = "buf[c + j := cost']"
      have len': "length ?buf = 2 * nbc" using len by simp
      have pr': "\<forall>k < nbc. ?buf ! (p + k) = prow k"
        using buf_p [OF bs len jn] pr by simp
      have cc: "?buf ! (c + j) = cost'" using buf_c [OF bs len jn jn] by simp
      have gd': "\<forall>k. ns \<le> k \<and> k < j + 1 \<longrightarrow> good ub (?M i k) (?buf ! (c + k))"
      proof (intro allI impI)
        fix k assume k: "ns \<le> k \<and> k < j + 1"
        show "good ub (?M i k) (?buf ! (c + k))"
        proof (cases "k = j")
          case True
          then show ?thesis using g cc by simp
        next
          case F: False
          with k have "k < j" "k < nbc" using jn by simp_all
          then show ?thesis using buf_c [OF bs len jn, of k cost'] gd k F by simp
        qed
      qed
      have st: "stage3 nbl nbc dc d cutoff ub i c p buf j cost ns cpp
          = Inr (?buf, j + 1, cost', ns, if fle cost' ub then j + 1 else cpp)"
        using jn False by (simp add: stage3_def cost'_def Let_def)
      have "cur_inv ub (?M i) nbc prow c p ns0 (?buf, j + 1, cost', ns, if fle cost' ub then j + 1 else cpp)"
      proof (cases "fle cost' ub")
        case True
        then show ?thesis
          using len' pr' bs o left gd' jn nsj cc good_nonneg [OF g]
          by (auto simp add: cur_inv_def)
      next
        case F: False
        from good_hi [OF g nub F] have h: "flt ub (?M i j)" "flt ub cost'" by simp_all
        have l3: "\<forall>k. cpp \<le> k \<and> k < j + 1 \<longrightarrow> flt ub (?M i k)"
          using hi h(1) by (auto simp: less_Suc_eq)
        show ?thesis
          using F len' pr' bs o left gd' l3 jn nsj cc good_nonneg [OF g]
          by (auto simp add: cur_inv_def)
      qed
      then show ?thesis unfolding st using nsj jp by simp
    qed
  next
    case jn: False
    then have je: "j = nbc" using o by simp
    show ?thesis
    proof (cases "j = ns")
      case True
      with hc have "flt ub cost" by simp
      then have "\<not> fle cost ub" by (rule flt_not_fle)
      then have "\<not> fle cost cutoff" using u2 nc by blast
      then have "flt cutoff cost" using not_fle_iff [OF nonneg_not_nan [OF nc] ncut] by simp
      then have st: "stage3 nbl nbc dc d cutoff ub i c p buf j cost ns cpp = Inl (PInf, buf)"
        using jn True by (simp add: stage3_def)
      show ?thesis unfolding st using left True je by simp
    next
      case False
      then have st: "stage3 nbl nbc dc d cutoff ub i c p buf j cost ns cpp
          = Inr (buf, j, cost, ns, cpp)"
        using jn by (simp add: stage3_def)
      show ?thesis unfolding st using inv False o je by simp
    qed
  qed
qed

lemma row_end:
  assumes ctx: "row_ctx nbl nbc dl dc d cutoff ub i"
    and prev: "prev_inv ub (naive_cell dl dc d (i - 1)) nbc prow ns0 pp0"
    and inv: "cur_inv ub (naive_cell dl dc d i) nbc prow c p ns0 (buf, j, cost, ns, cpp)"
    and j: "ns < j" "j = nbc \<or> cpp < j" "pp0 < j \<or> j = nbc"
  shows "prev_inv ub (naive_cell dl dc d i) nbc (\<lambda>k. buf ! (c + k)) ns cpp \<and>
         (j = nbc \<longrightarrow> good ub (naive_cell dl dc d i (nbc - 1)) cost) \<and>
         (j \<noteq> nbc \<longrightarrow> flt ub (naive_cell dl dc d i (nbc - 1)))"
proof -
  let ?M = "naive_cell dl dc d"
  from ctx have co: "costs_ok nbl nbc dl dc d" and i: "0 < i" "i < nbl"
    by (simp_all add: row_ctx_def)
  from prev have h0: "\<forall>k. pp0 \<le> k \<and> k < nbc \<longrightarrow> flt ub (?M (i - 1) k)"
    by (simp_all add: prev_inv_def)
  from inv have o: "ns \<le> j" "cpp \<le> j" "ns < j \<longrightarrow> ns < cpp" "j \<le> nbc"
    and left: "\<forall>k < ns. flt ub (?M i k)"
    and gd: "\<forall>k. ns \<le> k \<and> k < j \<longrightarrow> good ub (?M i k) (buf ! (c + k))"
    and hi: "\<forall>k. cpp \<le> k \<and> k < j \<longrightarrow> flt ub (?M i k)"
    and ce: "\<forall>k. Suc k = j \<longrightarrow> buf ! (c + k) = cost"
    by (simp_all add: cur_inv_def)
  have hr: "\<forall>k. cpp \<le> k \<and> k < nbc \<longrightarrow> flt ub (?M i k)"
  proof (intro allI impI)
    fix k assume k: "cpp \<le> k \<and> k < nbc"
    show "flt ub (?M i k)"
    proof (cases "k < j")
      case True
      then show ?thesis using hi k by simp
    next
      case False
      with k j have c: "cpp < j" "pp0 < j" by auto
      then have "cpp \<le> j - 1 \<and> j - 1 < j" by arith
      with hi have h: "flt ub (?M i (j - 1))" by blast
      have "pp0 \<le> j - 1" "j - 1 \<le> k" using c False by arith+
      from hi_right [OF co i h0 this(1) h this(2)] k show ?thesis by simp
    qed
  qed
  have p: "prev_inv ub (?M i) nbc (\<lambda>k. buf ! (c + k)) ns cpp"
    using o j left gd hr by (auto simp: prev_inv_def)
  have e1: "j = nbc \<longrightarrow> good ub (?M i (nbc - 1)) cost"
  proof
    assume "j = nbc"
    with left_cell [OF gd ce j(1)] show "good ub (?M i (nbc - 1)) cost" by simp
  qed
  have e2: "j \<noteq> nbc \<longrightarrow> flt ub (?M i (nbc - 1))"
  proof
    assume "j \<noteq> nbc"
    with j o have "cpp \<le> nbc - 1 \<and> nbc - 1 < nbc" by arith
    with hr show "flt ub (?M i (nbc - 1))" by blast
  qed
  show ?thesis using p e1 e2 by simp
qed

lemma bases_swap: "bases nbc c p \<Longrightarrow> bases nbc p c"
  by (auto simp: bases_def)

lemma stage0_j: "fst (snd (stage0 dl ub i c p buf ns)) = ns + 1"
  by (simp add: stage0_def Let_def)

lemma main_loop_stop:
  "\<not> i < nbl \<Longrightarrow>
   main_loop nbl nbc dl dc d cutoff ub i c p buf j cost ns pp = Inr (buf, j, cost)"
  by (subst main_loop.simps) (simp only: if_False)

lemma main_loop_inv:
  assumes co: "costs_ok nbl nbc dl dc d" and nub: "\<not> isnan ub" and ncut: "\<not> isnan cutoff"
    and u2: "\<forall>x. nonneg x \<longrightarrow> fle x cutoff \<longrightarrow> fle x ub"
  shows "0 < i \<Longrightarrow> i \<le> nbl \<Longrightarrow> length buf = 2 * nbc \<Longrightarrow> bases nbc c p \<Longrightarrow>
     prev_inv ub (naive_cell dl dc d (i - 1)) nbc (\<lambda>k. buf ! (c + k)) ns pp \<Longrightarrow>
     (j = nbc \<longrightarrow> good ub (naive_cell dl dc d (i - 1) (nbc - 1)) cost) \<Longrightarrow>
     (j \<noteq> nbc \<longrightarrow> flt ub (naive_cell dl dc d (i - 1) (nbc - 1))) \<Longrightarrow>
     (case main_loop nbl nbc dl dc d cutoff ub i c p buf j cost ns pp of
        Inl r \<Rightarrow> fst r = PInf \<and> flt ub (naive_cell dl dc d (nbl - 1) (nbc - 1))
      | Inr (buf', j', cost') \<Rightarrow>
          (j' = nbc \<longrightarrow> good ub (naive_cell dl dc d (nbl - 1) (nbc - 1)) cost') \<and>
          (j' \<noteq> nbc \<longrightarrow> flt ub (naive_cell dl dc d (nbl - 1) (nbc - 1))))"
proof (induction "nbl - i" arbitrary: i c p buf j cost ns pp)
  case 0
  then have e: "i = nbl" by simp
  then have "main_loop nbl nbc dl dc d cutoff ub i c p buf j cost ns pp = Inr (buf, j, cost)"
    by (intro main_loop_stop) simp
  then show ?case using 0 e by simp
next
  case (Suc n)
  let ?M = "naive_cell dl dc d"
  let ?prow = "\<lambda>k. buf ! (c + k)"
  from Suc.hyps(2) have il: "i < nbl" by simp
  have ctx: "row_ctx nbl nbc dl dc d cutoff ub i"
    using co nub ncut u2 Suc.prems(1) il by (simp add: row_ctx_def)
  note prev = Suc.prems(5)
  from prev have npp: "ns < pp" "pp \<le> nbc" by (simp_all add: prev_inv_def)
  have bs: "bases nbc p c" using Suc.prems(4) by (rule bases_swap)
  have pr: "\<forall>k < nbc. buf ! (c + k) = ?prow k" by simp
  obtain b0 j0 cost0 ns0 pp0 where s0: "stage0 dl ub i p c buf ns = (b0, j0, cost0, ns0, pp0)"
    by (metis prod_cases5)
  have i0: "cur_inv ub (?M i) nbc ?prow p c ns (b0, j0, cost0, ns0, pp0)"
    using stage0_inv [OF ctx prev Suc.prems(3) bs pr] s0 by simp
  have j0: "j0 \<le> pp" using stage0_j [of dl ub i p c buf ns] s0 npp by simp
  obtain b1 j1 cost1 ns1 pp1 where
    s1: "stage1 dl d ub pp i p c b0 j0 cost0 ns0 pp0 = (b1, j1, cost1, ns1, pp1)"
    by (metis prod_cases5)
  from stage1_inv [OF ctx prev i0 j0] s1
  have i1: "cur_inv ub (?M i) nbc ?prow p c ns (b1, j1, cost1, ns1, pp1)"
    and j1: "j1 \<le> pp" "j1 = ns1 \<longrightarrow> j1 = pp" by auto
  from i1 have "ns1 \<le> j1" by (simp add: cur_inv_def)
  with j1 have j1': "ns1 < j1 \<or> j1 = pp" by auto
  obtain b2 j2 cost2 ns2 pp2 where
    s2: "stage2 dl dc d ub pp i p c b1 j1 cost1 ns1 pp1 = (b2, j2, cost2, ns2, pp2)"
    by (metis prod_cases5)
  from stage2_inv [OF ctx prev i1 j1(1) j1'] s2
  have i2: "cur_inv ub (?M i) nbc ?prow p c ns (b2, j2, cost2, ns2, pp2)"
    and j2: "j2 = pp" by auto
  note s3 = stage3_inv [OF ctx prev i2 j2]
  have ml: "main_loop nbl nbc dl dc d cutoff ub i c p buf j cost ns pp =
      (case stage3 nbl nbc dc d cutoff ub i p c b2 j2 cost2 ns2 pp2 of
         Inl r \<Rightarrow> Inl r
       | Inr (b3, j3, cost3, ns3, pp3) \<Rightarrow>
           (case stage4 nbc dc ub i p b3 j3 cost3 ns3 pp3 of
              (b4, j4, cost4, ns4, pp4) \<Rightarrow>
                main_loop nbl nbc dl dc d cutoff ub (i + 1) p c b4 j4 cost4 ns4 pp4))"
    using il s0 s1 s2 by (subst main_loop.simps) (simp add: Let_def)
  show ?case
  proof (cases "stage3 nbl nbc dc d cutoff ub i p c b2 j2 cost2 ns2 pp2")
    case (Inl r)
    with s3 have r: "fst r = PInf" "\<forall>k < nbc. flt ub (?M i k)" by simp_all
    have "nbl - 1 < nbl" "i \<le> nbl - 1" using il by simp_all
    from hi_rows [OF co r(2) this(2,1)] npp have "flt ub (?M (nbl - 1) (nbc - 1))" by simp
    then show ?thesis unfolding ml Inl using r(1) by simp
  next
    case (Inr v3)
    obtain b3 j3 cost3 ns3 pp3 where v3: "v3 = (b3, j3, cost3, ns3, pp3)"
      by (metis prod_cases5)
    from s3 Inr v3 have i3: "cur_inv ub (?M i) nbc ?prow p c ns (b3, j3, cost3, ns3, pp3)"
      and j3: "ns3 < j3" "pp < j3 \<or> j3 = nbc" by auto
    obtain b4 j4 cost4 ns4 pp4 where
      s4: "stage4 nbc dc ub i p b3 j3 cost3 ns3 pp3 = (b4, j4, cost4, ns4, pp4)"
      by (metis prod_cases5)
    from stage4_inv [OF ctx prev i3 j3] s4
    have i4: "cur_inv ub (?M i) nbc ?prow p c ns (b4, j4, cost4, ns4, pp4)"
      and j4: "ns4 < j4" "j4 = nbc \<or> pp4 < j4" "pp < j4 \<or> j4 = nbc" by auto
    from row_end [OF ctx prev i4 j4]
    have re: "prev_inv ub (?M i) nbc (\<lambda>k. b4 ! (p + k)) ns4 pp4"
      "j4 = nbc \<longrightarrow> good ub (?M i (nbc - 1)) cost4"
      "j4 \<noteq> nbc \<longrightarrow> flt ub (?M i (nbc - 1))" by simp_all
    from i4 have len: "length b4 = 2 * nbc" by (simp add: cur_inv_def)
    have n: "n = nbl - (i + 1)" "0 < i + 1" "i + 1 \<le> nbl" using Suc.hyps(2) il by simp_all
    have ih: "case main_loop nbl nbc dl dc d cutoff ub (i + 1) p c b4 j4 cost4 ns4 pp4 of
        Inl r \<Rightarrow> fst r = PInf \<and> flt ub (?M (nbl - 1) (nbc - 1))
      | Inr (buf', j', cost') \<Rightarrow>
          (j' = nbc \<longrightarrow> good ub (?M (nbl - 1) (nbc - 1)) cost') \<and>
          (j' \<noteq> nbc \<longrightarrow> flt ub (?M (nbl - 1) (nbc - 1)))"
      using Suc.hyps(1) [OF n(1,2,3) len bs] re by simp
    show ?thesis unfolding ml Inr v3 using s4 ih by simp
  qed
qed

lemma hi_row0:
  assumes "costs_ok nbl nbc dl dc d" "0 < nbl" "flt ub (naive_cell dl dc d 0 k0)"
  shows "k0 \<le> k \<Longrightarrow> k < nbc \<Longrightarrow> flt ub (naive_cell dl dc d 0 k)"
proof (induction k)
  case 0
  then show ?case using assms(3) by simp
next
  case (Suc k)
  show ?case
  proof (cases "k0 = Suc k")
    case True
    then show ?thesis using assms(3) by simp
  next
    case False
    with Suc have h: "flt ub (naive_cell dl dc d 0 k)" by simp
    have "nonneg (naive_cell dl dc d 0 k)" using M_nonneg [OF assms(1,2)] Suc.prems by simp
    moreover have "nonneg (dc 0 (Suc k))" using assms(1,2) Suc.prems by (simp add: costs_ok_def)
    ultimately show ?thesis using h by (simp add: fadd_mono_hi)
  qed
qed

lemma first_line_stop:
  "\<not> j < nbc \<Longrightarrow> first_line nbc dc ub c buf j cost pp = (buf, j, cost, pp)"
  by (subst first_line.simps) (simp only: if_False)

lemma first_line_inv:
  assumes co: "costs_ok nbl nbc dl dc d" and nub: "\<not> isnan ub" and nbl: "0 < nbl"
  shows "length buf = 2 * nbc \<Longrightarrow> 0 < j \<Longrightarrow> j \<le> nbc \<Longrightarrow>
     \<forall>k < j. good ub (naive_cell dl dc d 0 k) (buf ! k) \<Longrightarrow>
     \<forall>k. Suc k = j \<longrightarrow> buf ! k = cost \<Longrightarrow>
     (case first_line nbc dc ub 0 buf j cost j of
        (buf', j', cost', pp') \<Rightarrow>
          length buf' = 2 * nbc \<and>
          prev_inv ub (naive_cell dl dc d 0) nbc (\<lambda>k. buf' ! (0 + k)) 0 pp' \<and>
          (j' = nbc \<longrightarrow> good ub (naive_cell dl dc d 0 (nbc - 1)) cost') \<and>
          (j' \<noteq> nbc \<longrightarrow> flt ub (naive_cell dl dc d 0 (nbc - 1))))"
proof (induction "nbc - j" arbitrary: buf j cost)
  case 0
  then have e: "j = nbc" by simp
  then have st: "first_line nbc dc ub 0 buf j cost j = (buf, j, cost, j)"
    by (intro first_line_stop) simp
  have "good ub (naive_cell dl dc d 0 (nbc - 1)) cost"
    using left_cell [of 0 j ub "naive_cell dl dc d 0" buf 0 cost] 0 e by simp
  then show ?case unfolding st using 0 e by (auto simp add: prev_inv_def)
next
  case (Suc n)
  let ?M = "naive_cell dl dc d"
  from Suc.hyps(2) have jn: "j < nbc" by simp
  define cost' where "cost' = fadd cost (dc 0 j)"
  let ?buf = "buf[0 + j := cost']"
  have gl: "good ub (?M 0 (j - 1)) cost"
    using left_cell [of 0 j ub "?M 0" buf 0 cost] Suc.prems by simp
  have nn: "nonneg (?M 0 (j - 1))" using M_nonneg [OF co nbl] jn by simp
  have nc: "nonneg (dc 0 j)" using co nbl jn Suc.prems(2) by (simp add: costs_ok_def)
  have rec: "?M 0 j = fadd (?M 0 (j - 1)) (dc 0 j)" using Suc.prems(2) by (cases j) simp_all
  have g: "good ub (?M 0 j) cost'"
    unfolding rec cost'_def by (rule good_fadd [OF gl nn nc])
  have len': "length ?buf = 2 * nbc" using Suc.prems(1) by simp
  have cc: "?buf ! j = cost'" using Suc.prems(1) jn by simp
  have gd': "\<forall>k < j + 1. good ub (?M 0 k) (?buf ! k)"
  proof (intro allI impI)
    fix k assume "k < j + 1"
    then show "good ub (?M 0 k) (?buf ! k)"
      using Suc.prems(4) g cc by (cases "k = j") auto
  qed
  show ?case
  proof (cases "fle cost' ub")
    case True
    have e: "first_line nbc dc ub 0 buf j cost j = first_line nbc dc ub 0 ?buf (j + 1) cost' (j + 1)"
      using jn True by (subst first_line.simps) (simp add: cost'_def Let_def)
    have n: "n = nbc - (j + 1)" "0 < j + 1" "j + 1 \<le> nbc" using Suc.hyps(2) jn by simp_all
    have ce: "\<forall>k. Suc k = j + 1 \<longrightarrow> ?buf ! k = cost'" using cc by simp
    from Suc.hyps(1) [OF n(1) len' n(2,3) gd' ce] show ?thesis unfolding e .
  next
    case False
    have e: "first_line nbc dc ub 0 buf j cost j = (?buf, j, cost', j)"
      using jn False by (subst first_line.simps) (simp add: cost'_def Let_def)
    from good_hi [OF g nub False] have h: "flt ub (?M 0 j)" by simp
    have hr: "\<forall>k. j \<le> k \<and> k < nbc \<longrightarrow> flt ub (?M 0 k)"
      using hi_row0 [OF co nbl h] by simp
    have gd: "\<forall>k. 0 \<le> k \<and> k < j \<longrightarrow> good ub (?M 0 k) (?buf ! (0 + k))"
      using Suc.prems(4) by simp
    have "prev_inv ub (?M 0) nbc (\<lambda>k. ?buf ! (0 + k)) 0 j"
      unfolding prev_inv_def using Suc.prems(2) jn gd hr by simp
    moreover have "flt ub (?M 0 (nbc - 1))" using hr jn by simp
    ultimately show ?thesis unfolding e using len' jn by simp
  qed
qed

lemma msm_ub_ok:
  assumes "\<not> isnan (msm_ub nbl nbc dl dc d cutoff)"
  shows "\<not> isnan cutoff \<and>
         (\<forall>x. nonneg x \<longrightarrow> fle x cutoff \<longrightarrow> fle x (msm_ub nbl nbc dl dc d cutoff))"
proof (cases "2 \<le> nbc")
  case False
  then show ?thesis using assms by (simp add: msm_ub_def)
next
  case True
  define la where "la = fmin3 (d (nbl - 1) (nbc - 1)) (dc (nbl - 1) (nbc - 1)) (dl (nbl - 1) (nbc - 1))"
  have ub: "msm_ub nbl nbc dl dc d cutoff = nextafter cutoff (fsub PInf la)"
    using True by (simp add: msm_ub_def la_def Let_def)
  from assms have n: "\<not> isnan cutoff" "\<not> isnan (fsub PInf la)"
    unfolding ub by (auto simp: nextafter_def split: if_splits)
  then have dir: "fsub PInf la = PInf" by (cases la) (auto simp: fsub_def)
  have "\<forall>x. nonneg x \<longrightarrow> fle x cutoff \<longrightarrow> fle x (nextafter cutoff PInf)"
  proof (intro allI impI)
    fix x assume x: "nonneg x" "fle x cutoff"
    show "fle x (nextafter cutoff PInf)"
      using x maxfin_pos
      by (cases cutoff; cases x) (auto simp: nextafter_def nonneg_def norm_fl_def)
  qed
  then show ?thesis using n(1) unfolding ub dir by simp
qed

lemma fmin3_PInf:
  assumes "\<not> isnan a" "\<not> isnan b" "isnan (fsub PInf (fmin3 a b c))"
  shows "a = PInf \<and> b = PInf \<and> (c = PInf \<or> isnan c)"
  using assms by (cases a; cases b; cases c) (auto simp: fmin3_def fmin_def fsub_def split: if_splits)

lemma msm_ub_nan:
  assumes co: "costs_ok nbl nbc dl dc d" and n: "0 < nbl" "0 < nbc"
    and nan: "isnan (msm_ub nbl nbc dl dc d cutoff)"
  shows "isnan cutoff \<or> naive_cell dl dc d (nbl - 1) (nbc - 1) = PInf"
proof (cases "2 \<le> nbc")
  case False
  then show ?thesis using nan by (simp add: msm_ub_def)
next
  case True
  let ?i = "nbl - 1" and ?j = "nbc - 1"
  have ij: "?i < nbl" "?j < nbc" "0 < ?j" using n True by simp_all
  have c: "nonneg (d ?i ?j)" "nonneg (dc ?i ?j)" using co ij by (simp_all add: costs_ok_def)
  show ?thesis
  proof (cases "isnan cutoff")
    case True
    then show ?thesis by simp
  next
    case False
    have "isnan (fsub PInf (fmin3 (d ?i ?j) (dc ?i ?j) (dl ?i ?j)))"
    proof (rule ccontr)
      assume a: "\<not> isnan (fsub PInf (fmin3 (d ?i ?j) (dc ?i ?j) (dl ?i ?j)))"
      then have "fsub PInf (fmin3 (d ?i ?j) (dc ?i ?j) (dl ?i ?j)) = PInf"
        by (cases "fmin3 (d ?i ?j) (dc ?i ?j) (dl ?i ?j)") (auto simp: fsub_def)
      then have "msm_ub nbl nbc dl dc d cutoff = nextafter cutoff PInf"
        using True by (simp add: msm_ub_def Let_def)
      then show False using nan False maxfin_pos
        by (cases cutoff) (auto simp: nextafter_def norm_fl_def split: if_splits)
    qed
    from fmin3_PInf [OF nonneg_not_nan [OF c(1)] nonneg_not_nan [OF c(2)] this]
    have p: "d ?i ?j = PInf" "dc ?i ?j = PInf" "dl ?i ?j = PInf \<or> isnan (dl ?i ?j)" by simp_all
    have "naive_cell dl dc d ?i ?j = PInf"
    proof (cases "?i = 0")
      case True
      have "naive_cell dl dc d 0 ?j = fadd (naive_cell dl dc d 0 (?j - 1)) (dc 0 ?j)"
        using ij(3) by (cases ?j) simp_all
      moreover have "nonneg (naive_cell dl dc d 0 (?j - 1))"
        using M_nonneg [OF co n(1)] ij by simp
      ultimately show ?thesis using p(2) True by (auto simp: nonneg_cases)
    next
      case F: False
      then have i0: "0 < ?i" by simp
      have "nonneg (dl ?i ?j)" using co ij i0 by (simp add: costs_ok_def)
      with p(3) have p3: "dl ?i ?j = PInf" using nonneg_not_nan by blast
      have nn: "nonneg (naive_cell dl dc d (?i - 1) (?j - 1))"
        "nonneg (naive_cell dl dc d ?i (?j - 1))" "nonneg (naive_cell dl dc d (?i - 1) ?j)"
        using M_nonneg [OF co] ij by simp_all
      show ?thesis
        unfolding M_rec [OF i0 ij(3)] p(1,2) p3 using nn
        by (auto simp: nonneg_cases fmin3_def fmin_def)
    qed
    then show ?thesis by simp
  qed
qed

lemma internal_msm_correct:
  assumes co: "costs_ok nbl nbc dl dc d" and n: "0 < nbl" "0 < nbc"
  shows "fst (internal_msm nbl nbc dl dc d cutoff buffer_v) =
     (if fle (naive_cell dl dc d (nbl - 1) (nbc - 1)) cutoff
      then naive_cell dl dc d (nbl - 1) (nbc - 1) else PInf)"
proof -
  let ?M = "naive_cell dl dc d"
  let ?ub = "msm_ub nbl nbc dl dc d cutoff"
  let ?last = "?M (nbl - 1) (nbc - 1)"
  let ?b0 = "(replicate (nbc * 2) (Fin 0))[0 := d 0 0]"
  have nl: "nonneg ?last" using M_nonneg [OF co] n by simp
  have e: "internal_msm nbl nbc dl dc d cutoff buffer_v =
     (if fle (d 0 0) ?ub then
        (case first_line nbc dc ?ub 0 ?b0 1 (d 0 0) 1 of
           (buffer, j, cost, prev_pp) \<Rightarrow>
          (case main_loop nbl nbc dl dc d cutoff ?ub 1 0 nbc buffer j cost 0 prev_pp of
             Inl r \<Rightarrow> r
           | Inr (buffer, j, cost) \<Rightarrow>
               if j = nbc \<and> fle cost cutoff then (cost, buffer) else (PInf, buffer)))
      else (PInf, ?b0))"
    by (simp add: internal_msm_def Let_def)
  show ?thesis
  proof (cases "isnan ?ub")
    case True
    then have "\<not> fle (d 0 0) ?ub" by (rule fle_nan)
    then have r: "fst (internal_msm nbl nbc dl dc d cutoff buffer_v) = PInf"
      unfolding e by simp
    from msm_ub_nan [OF co n True] have "isnan cutoff \<or> ?last = PInf" .
    then have "\<not> fle ?last cutoff \<or> ?last = PInf" by (cases cutoff) auto
    then show ?thesis unfolding r by auto
  next
    case nub: False
    from msm_ub_ok [OF nub] have ncut: "\<not> isnan cutoff"
      and u2: "\<forall>x. nonneg x \<longrightarrow> fle x cutoff \<longrightarrow> fle x ?ub" by simp_all
    have hi_last: "flt ?ub ?last \<Longrightarrow> \<not> fle ?last cutoff"
      using u2 nl flt_not_fle by blast
    have d00: "nonneg (d 0 0)" using co n by (simp add: costs_ok_def)
    show ?thesis
    proof (cases "fle (d 0 0) ?ub")
      case False
      then have r: "fst (internal_msm nbl nbc dl dc d cutoff buffer_v) = PInf"
        unfolding e by simp
      from False have "flt ?ub (?M 0 0)"
        using not_fle_iff [OF nonneg_not_nan [OF d00] nub] by simp
      from hi_row0 [OF co n(1) this] have "\<forall>k < nbc. flt ?ub (?M 0 k)" by simp
      from hi_rows [OF co this, of "nbl - 1"] n have "flt ?ub ?last" by simp
      then show ?thesis unfolding r using hi_last by simp
    next
      case True
      obtain b1 j1 cost1 pp1 where
        fl: "first_line nbc dc ?ub 0 ?b0 1 (d 0 0) 1 = (b1, j1, cost1, pp1)"
        by (metis prod_cases4)
      have len0: "length ?b0 = 2 * nbc" by simp
      have g0: "\<forall>k < 1. good ?ub (?M 0 k) (?b0 ! k)"
        using n d00 by (simp add: good_exact)
      have c0: "\<forall>k. Suc k = 1 \<longrightarrow> ?b0 ! k = d 0 0" using n by simp
      have "0 < (1::nat)" "1 \<le> nbc" using n by simp_all
      from first_line_inv [OF co nub n(1) len0 this g0 c0] fl
      have f1: "length b1 = 2 * nbc"
        "prev_inv ?ub (?M 0) nbc (\<lambda>k. b1 ! (0 + k)) 0 pp1"
        "j1 = nbc \<longrightarrow> good ?ub (?M 0 (nbc - 1)) cost1"
        "j1 \<noteq> nbc \<longrightarrow> flt ?ub (?M 0 (nbc - 1))" by simp_all
      have bs: "bases nbc 0 nbc" by (simp add: bases_def)
      have f1': "prev_inv ?ub (?M (1 - 1)) nbc (\<lambda>k. b1 ! (0 + k)) 0 pp1"
        "j1 = nbc \<longrightarrow> good ?ub (?M (1 - 1) (nbc - 1)) cost1"
        "j1 \<noteq> nbc \<longrightarrow> flt ?ub (?M (1 - 1) (nbc - 1))" using f1 by simp_all
      have "0 < (1::nat)" "1 \<le> nbl" using n by simp_all
      note ml = main_loop_inv [OF co nub ncut u2 this f1(1) bs f1']
      have e': "internal_msm nbl nbc dl dc d cutoff buffer_v =
          (case main_loop nbl nbc dl dc d cutoff ?ub 1 0 nbc b1 j1 cost1 0 pp1 of
             Inl r \<Rightarrow> r
           | Inr (buffer, j, cost) \<Rightarrow>
               if j = nbc \<and> fle cost cutoff then (cost, buffer) else (PInf, buffer))"
        unfolding e using True fl by simp
      show ?thesis
      proof (cases "main_loop nbl nbc dl dc d cutoff ?ub 1 0 nbc b1 j1 cost1 0 pp1")
        case (Inl r)
        with ml have "fst r = PInf" "flt ?ub ?last" by simp_all
        then show ?thesis unfolding e' Inl using hi_last by simp
      next
        case (Inr v)
        obtain b j cost where v: "v = (b, j, cost)" by (metis prod_cases3)
        from ml Inr v have r: "j = nbc \<longrightarrow> good ?ub ?last cost" "j \<noteq> nbc \<longrightarrow> flt ?ub ?last"
          by simp_all
        show ?thesis
        proof (cases "j = nbc")
          case False
          with r have "flt ?ub ?last" by simp
          then show ?thesis unfolding e' Inr v using False hi_last by simp
        next
          case jn: True
          with r have g: "good ?ub ?last cost" by simp
          show ?thesis
          proof (cases "fle cost cutoff")
            case True
            then have "fle cost ?ub" using u2 good_nonneg [OF g] by blast
            then have "\<not> flt ?ub cost" using flt_not_fle by blast
            with g have "cost = ?last" by (simp add: good_def)
            then show ?thesis unfolding e' Inr v using jn True by simp
          next
            case False
            have "\<not> fle ?last cutoff"
            proof (cases "cost = ?last")
              case True
              then show ?thesis using False by simp
            next
              case F: False
              with g have "flt ?ub ?last" by (simp add: good_def)
              then show ?thesis by (rule hi_last)
            qed
            then show ?thesis unfolding e' Inr v using jn False by simp
          qed
        qed
      qed
    qed
  qed
qed

lemma fadd_mono: "nonneg a \<Longrightarrow> nonneg c \<Longrightarrow> fle a b \<Longrightarrow> fle (fadd a c) (fadd b c)"
  using maxfin_pos by (cases a; cases b; cases c) (auto simp: nonneg_def norm_fl_def)

lemma fle_fmin_left: "\<not> isnan a \<Longrightarrow> \<not> isnan b \<Longrightarrow> fle (fmin a b) a"
  by (cases a; cases b) (auto simp: fmin_def)

lemma fle_fmin_right: "\<not> isnan a \<Longrightarrow> \<not> isnan b \<Longrightarrow> fle (fmin a b) b"
  by (cases a; cases b) (auto simp: fmin_def)

lemma fmin_not_nan: "\<not> isnan a \<Longrightarrow> \<not> isnan b \<Longrightarrow> \<not> isnan (fmin a b)"
  by (simp add: fmin_def)

lemma fle_fmin3:
  assumes "\<not> isnan a" "\<not> isnan b" "\<not> isnan c"
  shows "fle (fmin3 a b c) a" "fle (fmin3 a b c) b" "fle (fmin3 a b c) c"
proof -
  have n: "\<not> isnan (fmin b c)" using assms by (simp add: fmin_not_nan)
  show "fle (fmin3 a b c) a" unfolding fmin3_def using assms n by (simp add: fle_fmin_left)
  have r: "fle (fmin3 a b c) (fmin b c)"
    unfolding fmin3_def using assms n by (simp add: fle_fmin_right)
  show "fle (fmin3 a b c) b" using r fle_fmin_left [OF assms(2,3)] fle_trans by blast
  show "fle (fmin3 a b c) c" using r fle_fmin_right [OF assms(2,3)] fle_trans by blast
qed

text \<open>Each cell of the naive matrix is at most each of its three candidates.\<close>

lemma M_le_diag:
  assumes "costs_ok nbl nbc dl dc d" "0 < i" "i < nbl" "0 < j" "j < nbc"
  shows "fle (naive_cell dl dc d i j) (fadd (naive_cell dl dc d (i - 1) (j - 1)) (d i j))"
    and "fle (naive_cell dl dc d i j) (fadd (naive_cell dl dc d i (j - 1)) (dc i j))"
    and "fle (naive_cell dl dc d i j) (fadd (naive_cell dl dc d (i - 1) j) (dl i j))"
proof -
  have nn: "nonneg (naive_cell dl dc d (i - 1) (j - 1))" "nonneg (naive_cell dl dc d i (j - 1))"
    "nonneg (naive_cell dl dc d (i - 1) j)"
    using M_nonneg [OF assms(1)] assms by simp_all
  have c: "nonneg (d i j)" "nonneg (dc i j)" "nonneg (dl i j)"
    using assms by (simp_all add: costs_ok_def)
  have n: "\<not> isnan (fadd (naive_cell dl dc d (i - 1) (j - 1)) (d i j))"
    "\<not> isnan (fadd (naive_cell dl dc d i (j - 1)) (dc i j))"
    "\<not> isnan (fadd (naive_cell dl dc d (i - 1) j) (dl i j))"
    using nn c nonneg_fadd nonneg_not_nan by simp_all
  show "fle (naive_cell dl dc d i j) (fadd (naive_cell dl dc d (i - 1) (j - 1)) (d i j))"
    and "fle (naive_cell dl dc d i j) (fadd (naive_cell dl dc d i (j - 1)) (dc i j))"
    and "fle (naive_cell dl dc d i j) (fadd (naive_cell dl dc d (i - 1) j) (dl i j))"
    unfolding M_rec [OF assms(2,4)] using fle_fmin3 [OF n] by simp_all
qed

lemma M_le_above:
  assumes "costs_ok nbl nbc dl dc d" "0 < i" "i < nbl" "j < nbc"
  shows "fle (naive_cell dl dc d i j) (fadd (naive_cell dl dc d (i - 1) j) (dl i j))"
proof (cases "j = 0")
  case True
  have "nonneg (naive_cell dl dc d i 0)" using M_nonneg [OF assms(1)] assms True by simp
  then have "fle (naive_cell dl dc d i 0) (naive_cell dl dc d i 0)"
    using nonneg_not_nan fle_refl by blast
  then have "fle (naive_cell dl dc d i 0) (fadd (naive_cell dl dc d (i - 1) 0) (dl i 0))"
    using M_rec0 [OF assms(2), of dl dc d] by simp
  then show ?thesis using True by simp
next
  case False
  then show ?thesis using M_le_diag(3) [OF assms(1,2,3) _ assms(4)] by simp
qed

lemma M_le_left:
  assumes "costs_ok nbl nbc dl dc d" "i < nbl" "0 < j" "j < nbc"
  shows "fle (naive_cell dl dc d i j) (fadd (naive_cell dl dc d i (j - 1)) (dc i j))"
proof (cases "i = 0")
  case True
  have "nonneg (naive_cell dl dc d 0 j)" using M_nonneg [OF assms(1)] assms True by simp
  moreover have "naive_cell dl dc d 0 j = fadd (naive_cell dl dc d 0 (j - 1)) (dc 0 j)"
    using assms(3) by (cases j) simp_all
  ultimately show ?thesis using True nonneg_not_nan fle_refl by metis
next
  case False
  then show ?thesis using M_le_diag(2) [OF assms(1) _ assms(2,3,4)] by simp
qed

text \<open>
  The bound that \<open>msm\<close> takes from the diagonal is the cost of a path of the matrix, so
  the last cell is not above it.
\<close>

lemma fold_upt_Suc: "a \<le> b \<Longrightarrow> fold f [a..<Suc b] x = f b (fold f [a..<b] x)"
  by simp

lemma diag_part:
  assumes co: "costs_ok nbl nbc dl dc d"
  shows "0 < m \<Longrightarrow> m \<le> nbl \<Longrightarrow> m \<le> nbc \<Longrightarrow>
     nonneg (fold (\<lambda>i ub. fadd ub (d i i)) [0..<m] (Fin 0)) \<and>
     fle (naive_cell dl dc d (m - 1) (m - 1)) (fold (\<lambda>i ub. fadd ub (d i i)) [0..<m] (Fin 0))"
proof (induction m)
  case 0
  then show ?case by simp
next
  case (Suc m)
  let ?D = "\<lambda>m. fold (\<lambda>i ub. fadd ub (d i i)) [0..<m] (Fin 0)"
  have dm: "nonneg (d m m)" using co Suc.prems by (simp add: costs_ok_def)
  have e: "?D (Suc m) = fadd (?D m) (d m m)" by simp
  show ?case
  proof (cases "m = 0")
    case True
    have "?D (Suc 0) = fadd (Fin 0) (d 0 0)" by simp
    moreover have "nonneg (fadd (Fin 0) (d 0 0))" "fle (d 0 0) (fadd (Fin 0) (d 0 0))"
      using dm True maxfin_pos by (cases "d 0 0"; auto simp: nonneg_def norm_fl_def)+
    ultimately show ?thesis using True by simp
  next
    case False
    with Suc have ih: "nonneg (?D m)" "fle (naive_cell dl dc d (m - 1) (m - 1)) (?D m)" by simp_all
    have nn: "nonneg (naive_cell dl dc d (m - 1) (m - 1))"
      using M_nonneg [OF co] Suc.prems by simp
    have "fle (naive_cell dl dc d m m) (fadd (naive_cell dl dc d (m - 1) (m - 1)) (d m m))"
      using M_le_diag(1) [OF co, of m m] False Suc.prems by simp
    moreover have "fle (fadd (naive_cell dl dc d (m - 1) (m - 1)) (d m m)) (fadd (?D m) (d m m))"
      by (rule fadd_mono [OF nn dm ih(2)])
    ultimately have "fle (naive_cell dl dc d m m) (?D (Suc m))"
      unfolding e using fle_trans by blast
    moreover have "nonneg (?D (Suc m))" unfolding e by (rule nonneg_fadd [OF ih(1) dm])
    ultimately show ?thesis by simp
  qed
qed

lemma col_part:
  assumes co: "costs_ok nbl nbc dl dc d" and j: "j < nbc"
    and x: "nonneg x" "fle (naive_cell dl dc d (a - 1) j) x" "0 < a"
  shows "a \<le> m \<Longrightarrow> m \<le> nbl \<Longrightarrow>
     nonneg (fold (\<lambda>i ub. fadd ub (dl i j)) [a..<m] x) \<and>
     fle (naive_cell dl dc d (m - 1) j) (fold (\<lambda>i ub. fadd ub (dl i j)) [a..<m] x)"
proof (induction m)
  case 0
  then show ?case using x by simp
next
  case (Suc m)
  let ?D = "\<lambda>m. fold (\<lambda>i ub. fadd ub (dl i j)) [a..<m] x"
  show ?case
  proof (cases "a = Suc m")
    case True
    then show ?thesis using x by simp
  next
    case False
    with Suc.prems have am: "a \<le> m" "m < nbl" "0 < m" using x(3) by simp_all
    with Suc.IH have ih: "nonneg (?D m)" "fle (naive_cell dl dc d (m - 1) j) (?D m)" by simp_all
    have e: "?D (Suc m) = fadd (?D m) (dl m j)" using am by simp
    have dm: "nonneg (dl m j)" using co am j by (simp add: costs_ok_def)
    have nn: "nonneg (naive_cell dl dc d (m - 1) j)" using M_nonneg [OF co] am j by simp
    have "fle (naive_cell dl dc d m j) (fadd (naive_cell dl dc d (m - 1) j) (dl m j))"
      by (rule M_le_above [OF co am(3,2) j])
    moreover have "fle (fadd (naive_cell dl dc d (m - 1) j) (dl m j)) (fadd (?D m) (dl m j))"
      by (rule fadd_mono [OF nn dm ih(2)])
    ultimately have "fle (naive_cell dl dc d m j) (?D (Suc m))"
      unfolding e using fle_trans by blast
    moreover have "nonneg (?D (Suc m))" unfolding e by (rule nonneg_fadd [OF ih(1) dm])
    ultimately show ?thesis by simp
  qed
qed

lemma row_part:
  assumes co: "costs_ok nbl nbc dl dc d" and i: "i < nbl"
    and x: "nonneg x" "fle (naive_cell dl dc d i (a - 1)) x" "0 < a"
  shows "a \<le> m \<Longrightarrow> m \<le> nbc \<Longrightarrow>
     nonneg (fold (\<lambda>j ub. fadd ub (dc i j)) [a..<m] x) \<and>
     fle (naive_cell dl dc d i (m - 1)) (fold (\<lambda>j ub. fadd ub (dc i j)) [a..<m] x)"
proof (induction m)
  case 0
  then show ?case using x by simp
next
  case (Suc m)
  let ?D = "\<lambda>m. fold (\<lambda>j ub. fadd ub (dc i j)) [a..<m] x"
  show ?case
  proof (cases "a = Suc m")
    case True
    then show ?thesis using x by simp
  next
    case False
    with Suc.prems have am: "a \<le> m" "m < nbc" "0 < m" using x(3) by simp_all
    with Suc.IH have ih: "nonneg (?D m)" "fle (naive_cell dl dc d i (m - 1)) (?D m)" by simp_all
    have e: "?D (Suc m) = fadd (?D m) (dc i m)" using am by simp
    have dm: "nonneg (dc i m)" using co am i by (simp add: costs_ok_def)
    have nn: "nonneg (naive_cell dl dc d i (m - 1))" using M_nonneg [OF co] am i by simp
    have "fle (naive_cell dl dc d i m) (fadd (naive_cell dl dc d i (m - 1)) (dc i m))"
      by (rule M_le_left [OF co i am(3,2)])
    moreover have "fle (fadd (naive_cell dl dc d i (m - 1)) (dc i m)) (fadd (?D m) (dc i m))"
      by (rule fadd_mono [OF nn dm ih(2)])
    ultimately have "fle (naive_cell dl dc d i m) (?D (Suc m))"
      unfolding e using fle_trans by blast
    moreover have "nonneg (?D (Suc m))" unfolding e by (rule nonneg_fadd [OF ih(1) dm])
    ultimately show ?thesis by simp
  qed
qed

lemma diag_ub_bound:
  assumes co: "costs_ok nbl nbc dl dc d" and n: "0 < nbl" "0 < nbc"
  shows "fle (naive_cell dl dc d (nbl - 1) (nbc - 1)) (diag_ub nbl nbc dl dc d)"
proof -
  let ?m = "min nbl nbc"
  let ?D = "fold (\<lambda>i ub. fadd ub (d i i)) [0..<?m] (Fin 0)"
  have m: "0 < ?m" "?m \<le> nbl" "?m \<le> nbc" using n by simp_all
  from diag_part [OF co m] have D: "nonneg ?D" "fle (naive_cell dl dc d (?m - 1) (?m - 1)) ?D"
    by simp_all
  consider (lt) "nbl < nbc" | (gt) "nbc < nbl" | (eq) "nbl = nbc" by linarith
  then show ?thesis
  proof cases
    case lt
    then have me: "?m = nbl" by simp
    have e: "diag_ub nbl nbc dl dc d = fold (\<lambda>j ub. fadd ub (dc (nbl - 1) j)) [nbl..<nbc] ?D"
      using lt by (simp add: diag_ub_def Let_def)
    have "nbl - 1 < nbl" using n by simp
    from row_part [OF co this D(1) _ n(1), of nbc] D(2) lt me show ?thesis unfolding e by simp
  next
    case gt
    then have me: "?m = nbc" by simp
    have e: "diag_ub nbl nbc dl dc d = fold (\<lambda>i ub. fadd ub (dl i (nbc - 1))) [nbc..<nbl] ?D"
      using gt by (simp add: diag_ub_def Let_def)
    have "nbc - 1 < nbc" using n by simp
    from col_part [OF co this D(1) _ n(2), of nbl] D(2) gt me show ?thesis unfolding e by simp
  next
    case eq
    then have e: "diag_ub nbl nbc dl dc d = ?D" by (simp add: diag_ub_def Let_def)
    show ?thesis unfolding e using D(2) eq by simp
  qed
qed

lemma msm_exact:
  assumes co: "costs_ok nbl nbc dl dc d"
  shows "fst (msm nbl nbc dl dc d ub buffer_v) =
     (if isinf ub \<or> isnan ub \<or> fle (naive_dp nbl nbc dl dc d) ub \<or> (nbl = 0 \<and> nbc = 0)
      then naive_dp nbl nbc dl dc d else PInf)"
proof (cases "nbl = 0 \<or> nbc = 0")
  case True
  then show ?thesis by (cases ub) (auto simp: msm_def naive_dp_def)
next
  case False
  then have n: "0 < nbl" "0 < nbc" by simp_all
  let ?last = "naive_cell dl dc d (nbl - 1) (nbc - 1)"
  have nd: "naive_dp nbl nbc dl dc d = ?last" using False by (simp add: naive_dp_def)
  have nl: "\<not> isnan ?last" using M_nonneg [OF co] n nonneg_not_nan by simp
  note ic = internal_msm_correct [OF co n]
  consider (inf) "isinf ub" | (nan) "\<not> isinf ub" "isnan ub" | (fin) "\<not> isinf ub" "\<not> isnan ub"
    by blast
  then show ?thesis
  proof cases
    case inf
    then have "fst (msm nbl nbc dl dc d ub buffer_v) =
        fst (internal_msm nbl nbc dl dc d (diag_ub nbl nbc dl dc d) buffer_v)"
      using False by (simp add: msm_def)
    then show ?thesis using ic [of "diag_ub nbl nbc dl dc d"] diag_ub_bound [OF co n] inf nd n by simp
  next
    case nan
    then have "fst (msm nbl nbc dl dc d ub buffer_v) =
        fst (internal_msm nbl nbc dl dc d PInf buffer_v)"
      using False by (simp add: msm_def)
    moreover have "fle ?last PInf" using nl by (cases ?last) simp_all
    ultimately show ?thesis using ic [of PInf] nan nd n by simp
  next
    case fin
    then have "fst (msm nbl nbc dl dc d ub buffer_v) =
        fst (internal_msm nbl nbc dl dc d ub buffer_v)"
      using False by (simp add: msm_def)
    then show ?thesis using ic [of ub] fin nd n by simp
  qed
qed

subsection \<open>The result of \<open>msm\<close>\<close>

lemma nonneg_fabs: "\<not> isnan x \<Longrightarrow> nonneg (fabs x)"
  by (cases x) (auto simp: nonneg_def)

lemma fsub_finite_not_nan: "isfinite a \<Longrightarrow> isfinite b \<Longrightarrow> \<not> isnan (fsub a b)"
  by (cases a; cases b) (auto simp: fsub_def norm_fl_def)

lemma nonneg_ad1:
  "i < length lines \<Longrightarrow> j < length cols \<Longrightarrow> list_all isfinite lines \<Longrightarrow> list_all isfinite cols \<Longrightarrow>
   nonneg (ad1 lines cols i j)"
  unfolding ad1_def by (intro nonneg_fabs fsub_finite_not_nan) (simp_all add: list_all_length)

lemma nonneg_msm_cost_ad1:
  assumes "xnew_i < length X" "xi_i < length X" "yj_i < length Y"
    "list_all isfinite X" "list_all isfinite Y" "nonneg c"
  shows "nonneg (msm_cost_ad1 X xnew_i xi_i Y yj_i c)"
proof -
  have f: "isfinite (X ! xnew_i)" "isfinite (X ! xi_i)" "isfinite (Y ! yj_i)"
    using assms by (simp_all add: list_all_length)
  have "nonneg (fabs (fsub (X ! xnew_i) (X ! xi_i)))" "nonneg (fabs (fsub (X ! xnew_i) (Y ! yj_i)))"
    using f by (simp_all add: nonneg_fabs fsub_finite_not_nan)
  then show ?thesis
    using assms(6) by (simp add: msm_cost_ad1_def Let_def nonneg_fadd nonneg_fmin)
qed

lemma costs_ok_uni:
  assumes "list_all isfinite lines" "list_all isfinite cols" "nonneg c"
  shows "costs_ok (length lines) (length cols)
           (msm_lines_ad1 lines cols c) (msm_cols_ad1 lines cols c) (ad1 lines cols)"
  unfolding costs_ok_def msm_lines_ad1_def msm_cols_ad1_def
  using assms by (auto intro!: nonneg_ad1 nonneg_msm_cost_ad1 simp: size_pred_def)










section \<open>The 1-NN scan with the best so far as upper bound\<close>

lemma naive_dp_not_nan:
  assumes "costs_ok nbl nbc dl dc d"
  shows "\<not> isnan (naive_dp nbl nbc dl dc d)"
proof (cases "nbl = 0 \<or> nbc = 0")
  case True
  then show ?thesis by (auto simp: naive_dp_def)
next
  case False
  then have "nonneg (naive_dp nbl nbc dl dc d)"
    using M_nonneg [OF assms, of "nbl - 1" "nbc - 1"] by (simp add: naive_dp_def)
  then show ?thesis by (rule nonneg_not_nan)
qed

lemma msm_contract:
  assumes "costs_ok nbl nbc dl dc d"
  shows "eap_contract (\<lambda>ub. fst (msm nbl nbc dl dc d ub buffer_v)) (naive_dp nbl nbc dl dc d)"
  unfolding eap_contract_def using naive_dp_not_nan [OF assms] msm_exact [OF assms, of _ buffer_v]
  by simp

lemma msm_uni_contract:
  assumes "list_all isfinite lines" "list_all isfinite cols" "nonneg c"
  shows "eap_contract (msm_uni lines cols c)
           (naive_dp (length lines) (length cols) (msm_lines_ad1 lines cols c)
              (msm_cols_ad1 lines cols c) (ad1 lines cols))"
proof -
  have "msm_uni lines cols c = (\<lambda>ub. fst (msm (length lines) (length cols)
      (msm_lines_ad1 lines cols c) (msm_cols_ad1 lines cols c) (ad1 lines cols) ub []))"
    by (rule ext) (simp add: msm_uni_def msm_nobuf_def)
  then show ?thesis using msm_contract [OF costs_ok_uni [OF assms]] by simp
qed

lemma nn1_step:
  assumes "eap_contract dist r" "\<not> isnan bsf"
  shows "flt (dist bsf) bsf \<longleftrightarrow> flt (dist PInf) bsf" "flt (dist PInf) bsf \<Longrightarrow> dist bsf = dist PInf"
    "\<not> isnan (dist PInf)"
proof -
  from assms(1) have r: "\<not> isnan r" "dist PInf = r"
    and c: "isinf bsf \<or> fle r bsf \<longrightarrow> dist bsf = r" "dist bsf = r \<or> dist bsf = PInf"
    by (auto simp: eap_contract_def)
  show "\<not> isnan (dist PInf)" using r by simp
  have le: "flt r bsf \<Longrightarrow> fle r bsf" by (cases r; cases bsf) auto
  show "flt (dist PInf) bsf \<Longrightarrow> dist bsf = dist PInf" using r c le by simp
  show "flt (dist bsf) bsf \<longleftrightarrow> flt (dist PInf) bsf"
  proof
    assume "flt (dist bsf) bsf"
    with c(2) show "flt (dist PInf) bsf" using r by auto
  next
    assume "flt (dist PInf) bsf"
    then show "flt (dist bsf) bsf" using r c le by simp
  qed
qed

text \<open>
  C5: over any sequence of candidates scanned in order, the 1-NN loop that gives the best
  so far to the kernel as its upper bound selects the same index, with the same distance,
  as the loop that calls the kernel without a bound, for every distance that meets the
  contract of a kernel with early abandoning, as the MSM kernel does.
\<close>

theorem nn1_eap_same_index:
  assumes "\<forall>(j, dist) \<in> set cands. \<exists>r. eap_contract dist r" and "\<not> isnan bsf"
  shows "nn1_eap cands idx bsf = nn1_base cands idx bsf"
  using assms
proof (induction cands arbitrary: idx bsf)
  case Nil
  then show ?case by simp
next
  case (Cons a cands)
  obtain j dist where a: "a = (j, dist)" by (cases a)
  with Cons.prems obtain r where c: "eap_contract dist r" by auto
  have rest: "\<forall>(j, dist) \<in> set cands. \<exists>r. eap_contract dist r" using Cons.prems(1) by simp
  note st = nn1_step [OF c Cons.prems(2)]
  show ?case
  proof (cases "flt (dist PInf) bsf")
    case True
    then show ?thesis using a st Cons.IH [OF rest st(3)] by (simp add: Let_def)
  next
    case False
    then show ?thesis using a st Cons.IH [OF rest Cons.prems(2)] by (simp add: Let_def)
  qed
qed


lemma ex_nn1_base: "nn1_base ex_cands 0 PInf = (5, Fin 3)"
  by code_simp

theorem nn1_eap_same_index_witness:
  "nn1_eap ex_cands 0 PInf = nn1_base ex_cands 0 PInf \<and> nn1_base ex_cands 0 PInf = (5, Fin 3)"
proof -
  have "\<exists>r. eap_contract (msm_uni ex_query [Fin 4, Fin 9] (Fin 1)) r"
    "\<exists>r. eap_contract (msm_uni ex_query [Fin 2, Fin 3] (Fin 1)) r"
    by (rule exI, rule msm_uni_contract; simp add: ex_query_def nonneg_def)+
  then have "\<forall>(j, dist) \<in> set ex_cands. \<exists>r. eap_contract dist r"
    by (simp add: ex_cands_def)
  from nn1_eap_same_index [OF this, of PInf 0] ex_nn1_base show ?thesis by simp
qed

section \<open>The distance from a series to itself\<close>




























end
